theory Spec2Isabelle
  imports
    Complex_Main
    "HOL-Library.AList"
    "HOL-Library.Char_ord"
    "HOL-Library.List_Lexorder"
    "HOL-Library.Product_Lexorder"
begin

section \<open>The CPU scheduling simulation of project1.py\<close>

text \<open>
  A shallow embedding of \<^verbatim>\<open>src/p1/project1.py\<close>. Process objects live in the list
  \<open>c_procs\<close> of the CPU and are referred to by their index in it (the index plays the
  role of the object's identity: the running slot, the ready queue and the two
  dictionaries of the source hold references to the objects of \<^verbatim>\<open>cpu._procs\<close>).
  The dictionaries \<^verbatim>\<open>_io\<close> and \<^verbatim>\<open>_finished\<close> are association lists in insertion
  order, as Python dictionaries are. The lines printed to standard output are the
  list \<open>c_trace\<close> of events. The two float accumulators only ever receive integers,
  so they are integers here; the three averages are exact rationals.
\<close>

subsection \<open>Module constants\<close>

definition t_cs :: int where
  "t_cs = 8"

definition t_slice :: int where
  "t_slice = 80"

subsection \<open>Data model\<close>

datatype error = ZeroDivisionError | AttributeError

record Process =
  p_start :: int
  p_readied :: int
  p_last_arrival :: int
  p_remaining :: int
  p_pid :: string
  p_arrival :: int
  p_burst :: int
  p_num :: int
  p_io :: int

definition Process_init :: "string \<Rightarrow> int \<Rightarrow> int \<Rightarrow> int \<Rightarrow> int \<Rightarrow> Process" where
  "Process_init pid arrival burst num io =
     \<lparr> p_start = 0, p_readied = 0, p_last_arrival = arrival, p_remaining = burst,
       p_pid = pid, p_arrival = arrival, p_burst = burst, p_num = num, p_io = io \<rparr>"

datatype event =
    SimStarted string int string
  | BurstCompleted int string int string
  | SwitchingOut int string int string
  | Terminated int string string
  | IOCompleted int string string
  | Arrived int string string
  | StartedUsing int string string
  | StartedUsingRemaining int string int string
  | IOWillPreempt int string string string
  | ArrivalWillPreempt int string string string
  | SimEnded string int

record CPU =
  c_procs :: "Process list"
  c_total_turnaround :: int
  c_total_wait :: int
  c_total_num :: int
  c_avg_burst :: rat
  c_avg_wait :: rat
  c_avg_turnaround :: rat
  c_context :: int
  c_preempt :: int
  c_ticker :: int
  c_curr :: "nat option"
  c_ready :: "nat list"
  c_finished :: "(nat \<times> int) list"
  c_io :: "(nat \<times> int) list"
  c_trace :: "event list"

definition CPU_init :: "Process list \<Rightarrow> error + CPU" where
  "CPU_init ps =
     (let total = sum_list (map p_num ps) in
      if total = 0 then Inl ZeroDivisionError
      else Inr \<lparr> c_procs = ps, c_total_turnaround = 0, c_total_wait = 0,
                 c_total_num = total,
                 c_avg_burst = of_int (sum_list (map (\<lambda>p. p_burst p * p_num p) ps)) / of_int total,
                 c_avg_wait = 0, c_avg_turnaround = 0, c_context = 0, c_preempt = 0,
                 c_ticker = 0, c_curr = None, c_ready = [], c_finished = [], c_io = [],
                 c_trace = [] \<rparr>)"

definition proc :: "CPU \<Rightarrow> nat \<Rightarrow> Process" where
  "proc cpu i = c_procs cpu ! i"

definition upd_proc :: "nat \<Rightarrow> (Process \<Rightarrow> Process) \<Rightarrow> CPU \<Rightarrow> CPU" where
  "upd_proc i f cpu = cpu\<lparr>c_procs := (c_procs cpu)[i := f (c_procs cpu ! i)]\<rparr>"

definition emit :: "event \<Rightarrow> CPU \<Rightarrow> CPU" where
  "emit e cpu = cpu\<lparr>c_trace := c_trace cpu @ [e]\<rparr>"

definition get_queue :: "CPU \<Rightarrow> string" where
  "get_queue cpu =
     (let contents = ''[Q'' @ concat (map (\<lambda>i. '' '' @ p_pid (proc cpu i)) (c_ready cpu)) @ '']''
      in if contents = ''[Q]'' then ''[Q <empty>]'' else contents)"

subsection \<open>The operations of the CPU class\<close>

definition CPU_add :: "CPU \<Rightarrow> nat \<Rightarrow> CPU" where
  "CPU_add cpu p =
     (let cpu1 = upd_proc p (\<lambda>q. q\<lparr>p_start := c_ticker cpu\<rparr>) cpu;
          cpu2 = cpu1\<lparr>c_total_wait := c_total_wait cpu1 + (c_ticker cpu1 - p_readied (proc cpu1 p))\<rparr>
      in cpu2\<lparr>c_ticker := c_ticker cpu2 + t_cs div 2, c_curr := Some p,
              c_context := c_context cpu2 + 1\<rparr>)"

definition CPU_ready :: "CPU \<Rightarrow> nat \<Rightarrow> CPU" where
  "CPU_ready cpu p =
     (let cpu1 = upd_proc p (\<lambda>q. q\<lparr>p_readied := c_ticker cpu, p_last_arrival := c_ticker cpu\<rparr>) cpu
      in cpu1\<lparr>c_ready := c_ready cpu1 @ [p]\<rparr>)"

definition CPU_remove :: "CPU \<Rightarrow> error + CPU" where
  "CPU_remove cpu =
     (let cpu1 = cpu\<lparr>c_ticker := c_ticker cpu + t_cs div 2\<rparr>
      in case c_curr cpu1 of
           None \<Rightarrow> Inl AttributeError
         | Some c \<Rightarrow>
             Inr (cpu1\<lparr>c_total_turnaround :=
                          c_total_turnaround cpu1 + (c_ticker cpu1 - p_last_arrival (proc cpu1 c)),
                        c_curr := None\<rparr>))"

definition CPU_preempt :: "CPU \<Rightarrow> nat \<Rightarrow> error + CPU" where
  "CPU_preempt cpu p =
     (let cpu1 = cpu\<lparr>c_ticker := c_ticker cpu + t_cs div 2\<rparr>
      in case c_curr cpu1 of
           None \<Rightarrow> Inl AttributeError
         | Some c \<Rightarrow>
             (let cpu2 = upd_proc c (\<lambda>q. q\<lparr>p_readied := c_ticker cpu1\<rparr>) cpu1;
                  cpu3 = cpu2\<lparr>c_ready := c # c_ready cpu2, c_curr := None\<rparr>;
                  cpu4 = cpu3\<lparr>c_ticker := c_ticker cpu3 + t_cs div 2, c_curr := Some p\<rparr>;
                  cpu5 = upd_proc p (\<lambda>q. q\<lparr>p_remaining := p_remaining q - 1\<rparr>) cpu4
              in Inr (cpu5\<lparr>c_context := c_context cpu5 + 1, c_preempt := c_preempt cpu5 + 1\<rparr>)))"

subsection \<open>First come, first served\<close>

text \<open>Lines 273 to 298: the check of the running process; the result carries \<open>removed\<close>.\<close>

definition fcfs_check :: "CPU \<Rightarrow> bool \<times> CPU" where
  "fcfs_check cpu =
     (case c_curr cpu of
        None \<Rightarrow> (False, cpu)
      | Some c \<Rightarrow>
          if p_remaining (proc cpu c) \<le> 0 then
            (let cpu1 = upd_proc c (\<lambda>q. q\<lparr>p_num := p_num q - 1\<rparr>) cpu in
             if p_num (proc cpu1 c) > 0 then
               (let cpu2 = emit (BurstCompleted (c_ticker cpu1) (p_pid (proc cpu1 c))
                                   (p_num (proc cpu1 c)) (get_queue cpu1)) cpu1;
                    cpu3 = cpu2\<lparr>c_io := AList.update c
                                   (c_ticker cpu2 + p_io (proc cpu2 c) + t_cs div 2) (c_io cpu2)\<rparr>;
                    cpu4 = emit (SwitchingOut (c_ticker cpu3) (p_pid (proc cpu3 c))
                                   (c_ticker cpu2 + p_io (proc cpu2 c) + t_cs div 2)
                                   (get_queue cpu3)) cpu3
                in (True, cpu4))
             else
               (let cpu2 = emit (Terminated (c_ticker cpu1) (p_pid (proc cpu1 c))
                                   (get_queue cpu1)) cpu1
                in (True, cpu2\<lparr>c_finished := AList.update c (c_ticker cpu2) (c_finished cpu2)\<rparr>)))
          else (False, upd_proc c (\<lambda>q. q\<lparr>p_remaining := p_remaining q - 1\<rparr>) cpu))"

text \<open>Lines 300 to 306: the processes whose I/O ends now, in order of pid.\<close>

definition fcfs_io_done :: "CPU \<Rightarrow> nat list" where
  "fcfs_io_done cpu =
     sort_key (\<lambda>i. p_pid (proc cpu i))
       (map fst (filter (\<lambda>(i, tick). tick = c_ticker cpu) (c_io cpu)))"

definition fcfs_io_one :: "nat \<Rightarrow> CPU \<Rightarrow> CPU" where
  "fcfs_io_one p cpu =
     (let cpu1 = CPU_ready cpu p;
          cpu2 = cpu1\<lparr>c_io := AList.delete p (c_io cpu1)\<rparr>
      in emit (IOCompleted (c_ticker cpu2) (p_pid (proc cpu2 p)) (get_queue cpu2)) cpu2)"

definition fcfs_io :: "CPU \<Rightarrow> CPU" where
  "fcfs_io cpu = fold fcfs_io_one (fcfs_io_done cpu) cpu"

text \<open>Lines 308 to 313: the arrivals, in the order of the input.\<close>

definition fcfs_arrive_one :: "nat \<Rightarrow> CPU \<Rightarrow> CPU" where
  "fcfs_arrive_one i cpu =
     (if p_arrival (proc cpu i) = c_ticker cpu then
        (let cpu1 = upd_proc i (\<lambda>q. q\<lparr>p_last_arrival := c_ticker cpu\<rparr>) cpu;
             cpu2 = CPU_ready cpu1 i
         in emit (Arrived (c_ticker cpu2) (p_pid (proc cpu2 i)) (get_queue cpu2)) cpu2)
      else cpu)"

definition fcfs_arrivals :: "CPU \<Rightarrow> CPU" where
  "fcfs_arrivals cpu = fold fcfs_arrive_one [0 ..< length (c_procs cpu)] cpu"

text \<open>Lines 318 to 323: an empty running slot takes the head of the ready queue.\<close>

definition fcfs_admit :: "CPU \<Rightarrow> CPU" where
  "fcfs_admit cpu =
     (if c_curr cpu = None then
        (case c_ready cpu of
           [] \<Rightarrow> cpu
         | p # rest \<Rightarrow>
             (let cpu1 = CPU_add (cpu\<lparr>c_ready := rest\<rparr>) p;
                  cpu2 = upd_proc p (\<lambda>q. q\<lparr>p_remaining := p_burst q - 1\<rparr>) cpu1
              in emit (StartedUsing (c_ticker cpu2) (p_pid (proc cpu2 p)) (get_queue cpu2)) cpu2))
      else cpu)"

text \<open>One pass through the body of the loop, up to the test that ends it.\<close>

definition fcfs_tick :: "CPU \<Rightarrow> error + CPU" where
  "fcfs_tick cpu =
     (let (removed, cpu1) = fcfs_check cpu;
          cpu2 = fcfs_io cpu1;
          cpu3 = fcfs_arrivals cpu2
      in case (if removed then CPU_remove cpu3 else Inr cpu3) of
           Inl e \<Rightarrow> Inl e
         | Inr cpu4 \<Rightarrow> Inr (fcfs_admit cpu4))"

definition advance :: "CPU \<Rightarrow> CPU" where
  "advance cpu = cpu\<lparr>c_ticker := c_ticker cpu + 1\<rparr>"

text \<open>
  The loop \<^verbatim>\<open>while 1\<close> of \<^verbatim>\<open>run_fcfs\<close>; \<open>n\<close> is the module's global \<^verbatim>\<open>n\<close>.
  \<open>None\<close> is a loop that never ends.
\<close>

partial_function (option) fcfs_loop :: "nat \<Rightarrow> CPU \<Rightarrow> (error + CPU) option" where
  "fcfs_loop n cpu =
     (case fcfs_tick cpu of
        Inl e \<Rightarrow> Some (Inl e)
      | Inr cpu' \<Rightarrow>
          if length (c_finished cpu') = n then Some (Inr cpu')
          else fcfs_loop n (advance cpu'))"

type_synonym result = "(rat \<times> rat \<times> rat \<times> int \<times> int) \<times> event list"

definition finish :: "string \<Rightarrow> CPU \<Rightarrow> result" where
  "finish alg cpu =
     (let cpu1 = emit (SimEnded alg (c_ticker cpu)) cpu;
          cpu2 = cpu1\<lparr>c_avg_wait := of_int (c_total_wait cpu1) / of_int (c_total_num cpu1)\<rparr>;
          cpu3 = cpu2\<lparr>c_avg_turnaround :=
                        of_int (c_total_turnaround cpu2) / of_int (c_total_num cpu2)\<rparr>
      in ((c_avg_burst cpu3, c_avg_wait cpu3, c_avg_turnaround cpu3,
           c_context cpu3, c_preempt cpu3), c_trace cpu3))"

definition run_fcfs :: "nat \<Rightarrow> Process list \<Rightarrow> (error + result) option" where
  "run_fcfs n procs =
     (case CPU_init procs of
        Inl e \<Rightarrow> Some (Inl e)
      | Inr cpu \<Rightarrow>
          (case fcfs_loop n (emit (SimStarted ''FCFS'' (c_ticker cpu) (get_queue cpu)) cpu) of
             None \<Rightarrow> None
           | Some (Inl e) \<Rightarrow> Some (Inl e)
           | Some (Inr cpu') \<Rightarrow> Some (Inr (finish ''FCFS'' cpu'))))"

text \<open>The call of the main program: \<^verbatim>\<open>n = len(procs)\<close>, then \<^verbatim>\<open>run_fcfs(procs)\<close>.\<close>

definition main_fcfs :: "Process list \<Rightarrow> (error + result) option" where
  "main_fcfs procs = run_fcfs (length procs) procs"

text \<open>The loop unrolled a given number of times, to run it on a concrete workload.\<close>

primrec fcfs_iter :: "nat \<Rightarrow> nat \<Rightarrow> CPU \<Rightarrow> (error + CPU) + CPU" where
  "fcfs_iter 0 n cpu = Inr cpu"
| "fcfs_iter (Suc k) n cpu =
     (case fcfs_tick cpu of
        Inl e \<Rightarrow> Inl (Inl e)
      | Inr cpu' \<Rightarrow>
          if length (c_finished cpu') = n then Inl (Inr cpu')
          else fcfs_iter k n (advance cpu'))"

subsection \<open>Shortest remaining time\<close>

text \<open>Lines 347 to 373: as for FCFS, but a process going to I/O gets its full burst back.\<close>

definition srt_check :: "CPU \<Rightarrow> bool \<times> CPU" where
  "srt_check cpu =
     (case c_curr cpu of
        None \<Rightarrow> (False, cpu)
      | Some c \<Rightarrow>
          if p_remaining (proc cpu c) \<le> 0 then
            (let cpu1 = upd_proc c (\<lambda>q. q\<lparr>p_num := p_num q - 1\<rparr>) cpu in
             if p_num (proc cpu1 c) > 0 then
               (let cpu2 = emit (BurstCompleted (c_ticker cpu1) (p_pid (proc cpu1 c))
                                   (p_num (proc cpu1 c)) (get_queue cpu1)) cpu1;
                    cpu3 = upd_proc c (\<lambda>q. q\<lparr>p_remaining := p_burst q\<rparr>) cpu2;
                    cpu4 = cpu3\<lparr>c_io := AList.update c
                                   (c_ticker cpu3 + p_io (proc cpu3 c) + t_cs div 2) (c_io cpu3)\<rparr>;
                    cpu5 = emit (SwitchingOut (c_ticker cpu4) (p_pid (proc cpu4 c))
                                   (c_ticker cpu3 + p_io (proc cpu3 c) + t_cs div 2)
                                   (get_queue cpu4)) cpu4
                in (True, cpu5))
             else
               (let cpu2 = emit (Terminated (c_ticker cpu1) (p_pid (proc cpu1 c))
                                   (get_queue cpu1)) cpu1
                in (True, cpu2\<lparr>c_finished := AList.update c (c_ticker cpu2) (c_finished cpu2)\<rparr>)))
          else (False, upd_proc c (\<lambda>q. q\<lparr>p_remaining := p_remaining q - 1\<rparr>) cpu))"

text \<open>The sort key \<^verbatim>\<open>(obj._remaining, obj._pid)\<close> of the three sorts of \<^verbatim>\<open>run_srt\<close>.\<close>

definition srt_key :: "CPU \<Rightarrow> nat \<Rightarrow> int \<times> string" where
  "srt_key cpu i = (p_remaining (proc cpu i), p_pid (proc cpu i))"

definition srt_io_done :: "CPU \<Rightarrow> nat list" where
  "srt_io_done cpu =
     sort_key (srt_key cpu) (map fst (filter (\<lambda>(i, tick). tick = c_ticker cpu) (c_io cpu)))"

definition srt_arrived :: "CPU \<Rightarrow> nat list" where
  "srt_arrived cpu =
     sort_key (srt_key cpu)
       (filter (\<lambda>i. p_arrival (proc cpu i) = c_ticker cpu) [0 ..< length (c_procs cpu)])"

text \<open>
  Lines 377 to 393 (I/O completions) and 397 to 413 (arrivals) are the same code but
  for the text that is printed; \<open>origin\<close> tells which of the two blocks runs.
\<close>

datatype origin = FromIO | FromArrival

definition preempt_event :: "origin \<Rightarrow> int \<Rightarrow> string \<Rightarrow> string \<Rightarrow> string \<Rightarrow> event" where
  "preempt_event src = (case src of FromIO \<Rightarrow> IOWillPreempt | FromArrival \<Rightarrow> ArrivalWillPreempt)"

definition ready_event :: "origin \<Rightarrow> int \<Rightarrow> string \<Rightarrow> string \<Rightarrow> event" where
  "ready_event src = (case src of FromIO \<Rightarrow> IOCompleted | FromArrival \<Rightarrow> Arrived)"

definition srt_ready_one :: "origin \<Rightarrow> nat \<Rightarrow> CPU \<Rightarrow> CPU" where
  "srt_ready_one src p cpu =
     (let cpu1 = CPU_ready cpu p;
          cpu2 = cpu1\<lparr>c_ready := sort_key (srt_key cpu1) (c_ready cpu1)\<rparr>
      in emit (ready_event src (c_ticker cpu2) (p_pid (proc cpu2 p)) (get_queue cpu2)) cpu2)"

definition srt_newly_ready :: "origin \<Rightarrow> nat list \<Rightarrow> bool \<Rightarrow> CPU \<Rightarrow> error + CPU" where
  "srt_newly_ready src cands removed cpu =
     (case cands of
        [] \<Rightarrow> Inr cpu
      | best # others \<Rightarrow>
          (case c_curr cpu of
             None \<Rightarrow> Inr (fold (srt_ready_one src) cands cpu)
           | Some c \<Rightarrow>
               if \<not> removed \<and> p_remaining (proc cpu best) < p_remaining (proc cpu c) then
                 (let cpu1 = emit (preempt_event src (c_ticker cpu) (p_pid (proc cpu best))
                                     (p_pid (proc cpu c)) (get_queue cpu)) cpu
                  in case CPU_preempt cpu1 best of
                       Inl e \<Rightarrow> Inl e
                     | Inr cpu2 \<Rightarrow>
                         Inr (fold (srt_ready_one src) others
                                (emit (StartedUsing (c_ticker cpu2) (p_pid (proc cpu2 best))
                                         (get_queue cpu2)) cpu2)))
               else Inr (fold (srt_ready_one src) cands cpu)))"

text \<open>Lines 418 to 431.\<close>

definition srt_admit :: "CPU \<Rightarrow> CPU" where
  "srt_admit cpu =
     (if c_curr cpu = None then
        (case c_ready cpu of
           [] \<Rightarrow> cpu
         | p # rest \<Rightarrow>
             (let cpu1 = CPU_add (cpu\<lparr>c_ready := rest\<rparr>) p;
                  cpu2 = upd_proc p (\<lambda>q. q\<lparr>p_start := c_ticker cpu1 - t_cs div 2\<rparr>) cpu1
              in if p_remaining (proc cpu2 p) = p_burst (proc cpu2 p) then
                   (let cpu3 = upd_proc p (\<lambda>q. q\<lparr>p_remaining := p_burst q - 1\<rparr>) cpu2
                    in emit (StartedUsing (c_ticker cpu3) (p_pid (proc cpu3 p))
                               (get_queue cpu3)) cpu3)
                 else emit (StartedUsingRemaining (c_ticker cpu2) (p_pid (proc cpu2 p))
                              (p_remaining (proc cpu2 p) + 1) (get_queue cpu2)) cpu2))
      else cpu)"

definition srt_tick :: "CPU \<Rightarrow> error + CPU" where
  "srt_tick cpu =
     (let (removed, cpu1) = srt_check cpu
      in case srt_newly_ready FromIO (srt_io_done cpu1) removed cpu1 of
           Inl e \<Rightarrow> Inl e
         | Inr cpu2 \<Rightarrow>
             (case srt_newly_ready FromArrival (srt_arrived cpu2) removed cpu2 of
                Inl e \<Rightarrow> Inl e
              | Inr cpu3 \<Rightarrow>
                  (case (if removed then CPU_remove cpu3 else Inr cpu3) of
                     Inl e \<Rightarrow> Inl e
                   | Inr cpu4 \<Rightarrow> Inr (srt_admit cpu4))))"

partial_function (option) srt_loop :: "nat \<Rightarrow> CPU \<Rightarrow> (error + CPU) option" where
  "srt_loop n cpu =
     (case srt_tick cpu of
        Inl e \<Rightarrow> Some (Inl e)
      | Inr cpu' \<Rightarrow>
          if length (c_finished cpu') = n then Some (Inr cpu')
          else srt_loop n (advance cpu'))"

definition run_srt :: "nat \<Rightarrow> Process list \<Rightarrow> (error + result) option" where
  "run_srt n procs =
     (case CPU_init procs of
        Inl e \<Rightarrow> Some (Inl e)
      | Inr cpu \<Rightarrow>
          (case srt_loop n (emit (SimStarted ''SRT'' (c_ticker cpu) (get_queue cpu)) cpu) of
             None \<Rightarrow> None
           | Some (Inl e) \<Rightarrow> Some (Inl e)
           | Some (Inr cpu') \<Rightarrow> Some (Inr (finish ''SRT'' cpu'))))"

definition main_srt :: "Process list \<Rightarrow> (error + result) option" where
  "main_srt procs = run_srt (length procs) procs"

primrec srt_iter :: "nat \<Rightarrow> nat \<Rightarrow> CPU \<Rightarrow> (error + CPU) + CPU" where
  "srt_iter 0 n cpu = Inr cpu"
| "srt_iter (Suc k) n cpu =
     (case srt_tick cpu of
        Inl e \<Rightarrow> Inl (Inl e)
      | Inr cpu' \<Rightarrow>
          if length (c_finished cpu') = n then Inl (Inr cpu')
          else srt_iter k n (advance cpu'))"

subsection \<open>Round robin\<close>

text \<open>Lines 450 to 458: the whole of \<^verbatim>\<open>run_rr\<close>. There is no loop.\<close>

definition run_rr :: "Process list \<Rightarrow> error + result" where
  "run_rr procs =
     (case CPU_init procs of
        Inl e \<Rightarrow> Inl e
      | Inr cpu \<Rightarrow>
          (let cpu1 = emit (SimStarted ''RR'' (c_ticker cpu) (get_queue cpu)) cpu;
               cpu2 = emit (SimEnded ''RR'' (c_ticker cpu1)) cpu1;
               cpu3 = cpu2\<lparr>c_avg_turnaround :=
                             of_int (c_total_turnaround cpu2) / of_int (c_total_num cpu2)\<rparr>;
               cpu4 = cpu3\<lparr>c_avg_wait := of_int (c_total_wait cpu3) / of_int (c_total_num cpu3)\<rparr>
           in Inr ((c_avg_burst cpu4, c_avg_wait cpu4, c_avg_turnaround cpu4,
                    c_context cpu4, c_preempt cpu4), c_trace cpu4)))"

subsection \<open>Concrete states and workloads used below\<close>

text \<open>
  \<open>demo_cpu\<close>: at 7 ms process A runs with 10 ms left and B, with a burst of 2 ms, is in
  no queue. \<open>tie_cpu\<close>: the same with A and B both at 2 ms and B arriving at 7 ms;
  \<open>single_start\<close> and
  \<open>single_end\<close> are the CPU before and after the loop for the workload
  \<^verbatim>\<open>A|0|4|1|0\<close>; \<open>two_bursts\<close> is \<^verbatim>\<open>A|0|4|2|1\<close>; \<open>no_io_start\<close> and
  \<open>no_io_stuck\<close> are the CPU for \<^verbatim>\<open>A|0|4|2|0\<close> before the loop and after five
  passes of it.
\<close>

definition demo_cpu :: CPU where
  "demo_cpu =
     \<lparr> c_procs = [Process_init ''A'' 0 10 1 0, Process_init ''B'' 3 2 1 0],
       c_total_turnaround = 0, c_total_wait = 0, c_total_num = 2,
       c_avg_burst = 6, c_avg_wait = 0, c_avg_turnaround = 0, c_context = 1, c_preempt = 0,
       c_ticker = 7, c_curr = Some 0, c_ready = [], c_finished = [], c_io = [],
       c_trace = [] \<rparr>"

definition single_start :: CPU where
  "single_start =
     \<lparr> c_procs = [Process_init ''A'' 0 4 1 0],
       c_total_turnaround = 0, c_total_wait = 0, c_total_num = 1,
       c_avg_burst = 4, c_avg_wait = 0, c_avg_turnaround = 0, c_context = 0, c_preempt = 0,
       c_ticker = 0, c_curr = None, c_ready = [], c_finished = [], c_io = [],
       c_trace = [] \<rparr>"

definition single_end :: "string \<Rightarrow> CPU" where
  "single_end alg =
     \<lparr> c_procs = [\<lparr> p_start = 0, p_readied = 0, p_last_arrival = 0, p_remaining = 0,
                     p_pid = ''A'', p_arrival = 0, p_burst = 4, p_num = 0, p_io = 0 \<rparr>],
       c_total_turnaround = 12, c_total_wait = 0, c_total_num = 1,
       c_avg_burst = 4, c_avg_wait = 0, c_avg_turnaround = 0, c_context = 1, c_preempt = 0,
       c_ticker = 12, c_curr = None, c_ready = [], c_finished = [(0, 8)], c_io = [],
       c_trace = [SimStarted alg 0 ''[Q <empty>]'', Arrived 0 ''A'' ''[Q A]'',
                  StartedUsing 4 ''A'' ''[Q <empty>]'', Terminated 8 ''A'' ''[Q <empty>]''] \<rparr>"

definition two_bursts :: "Process list" where
  "two_bursts = [Process_init ''A'' 0 4 2 1]"

definition two_bursts_trace :: "event list" where
  "two_bursts_trace =
     [SimStarted ''FCFS'' 0 ''[Q <empty>]'', Arrived 0 ''A'' ''[Q A]'',
      StartedUsing 4 ''A'' ''[Q <empty>]'', BurstCompleted 8 ''A'' 1 ''[Q <empty>]'',
      SwitchingOut 8 ''A'' 13 ''[Q <empty>]'', IOCompleted 13 ''A'' ''[Q A]'',
      StartedUsing 17 ''A'' ''[Q <empty>]'', Terminated 21 ''A'' ''[Q <empty>]'',
      SimEnded ''FCFS'' 25]"

definition two_bursts_start :: CPU where
  "two_bursts_start =
     \<lparr> c_procs = two_bursts,
       c_total_turnaround = 0, c_total_wait = 0, c_total_num = 2,
       c_avg_burst = 4, c_avg_wait = 0, c_avg_turnaround = 0, c_context = 0, c_preempt = 0,
       c_ticker = 0, c_curr = None, c_ready = [], c_finished = [], c_io = [],
       c_trace = [] \<rparr>"

definition two_bursts_end :: CPU where
  "two_bursts_end =
     \<lparr> c_procs = [\<lparr> p_start = 13, p_readied = 13, p_last_arrival = 13, p_remaining = 0,
                     p_pid = ''A'', p_arrival = 0, p_burst = 4, p_num = 0, p_io = 1 \<rparr>],
       c_total_turnaround = 24, c_total_wait = 0, c_total_num = 2,
       c_avg_burst = 4, c_avg_wait = 0, c_avg_turnaround = 0, c_context = 2, c_preempt = 0,
       c_ticker = 25, c_curr = None, c_ready = [], c_finished = [(0, 21)], c_io = [],
       c_trace = butlast two_bursts_trace \<rparr>"

definition no_io_start :: CPU where
  "no_io_start =
     \<lparr> c_procs = [Process_init ''A'' 0 4 2 0],
       c_total_turnaround = 0, c_total_wait = 0, c_total_num = 2,
       c_avg_burst = 4, c_avg_wait = 0, c_avg_turnaround = 0, c_context = 0, c_preempt = 0,
       c_ticker = 0, c_curr = None, c_ready = [], c_finished = [], c_io = [],
       c_trace = [] \<rparr>"

definition no_io_stuck :: CPU where
  "no_io_stuck =
     \<lparr> c_procs = [\<lparr> p_start = 0, p_readied = 0, p_last_arrival = 0, p_remaining = 0,
                     p_pid = ''A'', p_arrival = 0, p_burst = 4, p_num = 1, p_io = 0 \<rparr>],
       c_total_turnaround = 12, c_total_wait = 0, c_total_num = 2,
       c_avg_burst = 4, c_avg_wait = 0, c_avg_turnaround = 0, c_context = 1, c_preempt = 0,
       c_ticker = 13, c_curr = None, c_ready = [], c_finished = [], c_io = [(0, 12)],
       c_trace = [SimStarted ''FCFS'' 0 ''[Q <empty>]'', Arrived 0 ''A'' ''[Q A]'',
                  StartedUsing 4 ''A'' ''[Q <empty>]'', BurstCompleted 8 ''A'' 1 ''[Q <empty>]'',
                  SwitchingOut 8 ''A'' 12 ''[Q <empty>]''] \<rparr>"

definition tie_cpu :: CPU where
  "tie_cpu = demo_cpu\<lparr>c_procs := [Process_init ''A'' 0 2 1 0, Process_init ''B'' 7 2 1 0]\<rparr>"






subsection \<open>Counting events; where a process is\<close>

text \<open>
  The number of lines \<^verbatim>\<open>Process ... terminated\<close> of a trace, and the invariant of the
  two loops: a process is in at most one of the running slot, the ready queue, the
  pending I/O completions and the finished processes, and every process held in one
  of them has arrived. The flags say whether the running slot is being vacated in this
  pass, whether an I/O completion due now still counts as pending, and whether arrivals
  due now have been taken.
\<close>

definition is_terminated :: "event \<Rightarrow> bool" where
  "is_terminated e = (case e of Terminated t pid q \<Rightarrow> True | _ \<Rightarrow> False)"

definition terminated_count :: "event list \<Rightarrow> nat" where
  "terminated_count tr = length (filter is_terminated tr)"

definition bnd :: "bool \<Rightarrow> int \<Rightarrow> int \<Rightarrow> bool" where
  "bnd strict x t = (if strict then x < t else x \<le> t)"

definition pend :: "bool \<Rightarrow> int \<Rightarrow> (nat \<times> int) list \<Rightarrow> nat set" where
  "pend incl t io = {p. \<exists>u. (p, u) \<in> set io \<and> \<not> bnd incl u t}"

definition cur_set :: "bool \<Rightarrow> nat option \<Rightarrow> nat set" where
  "cur_set removed cu = (if removed then {} else set_option cu)"

definition inv_on ::
  "bool \<Rightarrow> bool \<Rightarrow> bool \<Rightarrow> nat option \<Rightarrow> nat list \<Rightarrow> (nat \<times> int) list \<Rightarrow>
   (nat \<times> int) list \<Rightarrow> int \<Rightarrow> nat \<Rightarrow> (nat \<Rightarrow> int) \<Rightarrow> bool" where
  "inv_on r s a cu rd io fin t n arr \<longleftrightarrow>
     distinct rd \<and> distinct (map fst io) \<and>
     cur_set r cu \<inter> set rd = {} \<and> cur_set r cu \<inter> pend s t io = {} \<and>
     cur_set r cu \<inter> fst ` set fin = {} \<and>
     set rd \<inter> pend s t io = {} \<and> set rd \<inter> fst ` set fin = {} \<and>
     pend s t io \<inter> fst ` set fin = {} \<and>
     n = length fin \<and>
     (\<forall>p \<in> set_option cu \<union> set rd \<union> fst ` set io \<union> fst ` set fin. bnd a (arr p) t)"

definition arrival_of :: "CPU \<Rightarrow> nat \<Rightarrow> int" where
  "arrival_of c p = p_arrival (proc c p)"

definition sepinv :: "bool \<Rightarrow> bool \<Rightarrow> bool \<Rightarrow> CPU \<Rightarrow> bool" where
  "sepinv r s a c =
     inv_on r s a (c_curr c) (c_ready c) (c_io c) (c_finished c) (c_ticker c)
       (terminated_count (c_trace c)) (arrival_of c)"

definition missed_io :: "CPU \<Rightarrow> bool" where
  "missed_io c \<longleftrightarrow>
     c_curr c = None \<and> c_ready c = [] \<and> c_finished c = [] \<and> c_io c = [(0, 12)] \<and>
     12 < c_ticker c \<and> length (c_procs c) = 1 \<and> p_arrival (proc c 0) = 0"

section \<open>Properties\<close>

subsection \<open>Auxiliary facts\<close>

lemma fold_keeps: "(\<And>x s. g (f x s) = g s) \<Longrightarrow> g (fold f xs s) = g s"
  by (induction xs arbitrary: s) simp_all

lemma fold_mono_int: "(\<And>x s. (g s :: int) \<le> g (f x s)) \<Longrightarrow> g s \<le> g (fold f xs s)"
proof (induction xs arbitrary: s)
  case Nil
  show ?case by simp
next
  case (Cons x xs)
  have "g s \<le> g (f x s)" by (rule Cons.prems)
  also have "\<dots> \<le> g (fold f xs (f x s))" by (rule Cons.IH) (rule Cons.prems)
  finally show ?case by simp
qed

lemma t_cs_half: "t_cs div 2 = 4"
  by (simp add: t_cs_def)

subsection \<open>upd_proc, emit\<close>

lemma upd_proc_fields [simp]:
  "c_ticker (upd_proc i f cpu) = c_ticker cpu"
  "c_curr (upd_proc i f cpu) = c_curr cpu"
  "c_ready (upd_proc i f cpu) = c_ready cpu"
  "c_finished (upd_proc i f cpu) = c_finished cpu"
  "c_io (upd_proc i f cpu) = c_io cpu"
  "c_trace (upd_proc i f cpu) = c_trace cpu"
  "c_context (upd_proc i f cpu) = c_context cpu"
  "c_preempt (upd_proc i f cpu) = c_preempt cpu"
  "length (c_procs (upd_proc i f cpu)) = length (c_procs cpu)"
  by (simp_all add: upd_proc_def)

lemma emit_fields [simp]:
  "c_ticker (emit e cpu) = c_ticker cpu"
  "c_curr (emit e cpu) = c_curr cpu"
  "c_ready (emit e cpu) = c_ready cpu"
  "c_finished (emit e cpu) = c_finished cpu"
  "c_io (emit e cpu) = c_io cpu"
  "c_trace (emit e cpu) = c_trace cpu @ [e]"
  "c_context (emit e cpu) = c_context cpu"
  "c_preempt (emit e cpu) = c_preempt cpu"
  "c_procs (emit e cpu) = c_procs cpu"
  "proc (emit e cpu) = proc cpu"
  by (simp_all add: emit_def proc_def fun_eq_iff)

lemma CPU_add_fields [simp]:
  "c_ticker (CPU_add cpu p) = c_ticker cpu + t_cs div 2"
  "c_curr (CPU_add cpu p) = Some p"
  "c_ready (CPU_add cpu p) = c_ready cpu"
  "c_finished (CPU_add cpu p) = c_finished cpu"
  "c_io (CPU_add cpu p) = c_io cpu"
  "c_trace (CPU_add cpu p) = c_trace cpu"
  "c_context (CPU_add cpu p) = c_context cpu + 1"
  "c_preempt (CPU_add cpu p) = c_preempt cpu"
  "length (c_procs (CPU_add cpu p)) = length (c_procs cpu)"
  by (simp_all add: CPU_add_def Let_def)

lemma CPU_ready_fields [simp]:
  "c_ticker (CPU_ready cpu p) = c_ticker cpu"
  "c_curr (CPU_ready cpu p) = c_curr cpu"
  "c_ready (CPU_ready cpu p) = c_ready cpu @ [p]"
  "c_finished (CPU_ready cpu p) = c_finished cpu"
  "c_io (CPU_ready cpu p) = c_io cpu"
  "c_trace (CPU_ready cpu p) = c_trace cpu"
  "c_context (CPU_ready cpu p) = c_context cpu"
  "c_preempt (CPU_ready cpu p) = c_preempt cpu"
  "length (c_procs (CPU_ready cpu p)) = length (c_procs cpu)"
  by (simp_all add: CPU_ready_def Let_def)

lemma CPU_remove_Inr:
  "CPU_remove cpu = Inr cpu' \<longleftrightarrow>
     (\<exists>c. c_curr cpu = Some c \<and>
          cpu' = cpu\<lparr>c_ticker := c_ticker cpu + t_cs div 2,
                     c_total_turnaround := c_total_turnaround cpu +
                        (c_ticker cpu + t_cs div 2 - p_last_arrival (proc cpu c)),
                     c_curr := None\<rparr>)"
  by (auto simp: CPU_remove_def Let_def proc_def split: option.splits)

lemma CPU_remove_fields:
  assumes "CPU_remove cpu = Inr cpu'"
  shows "c_ticker cpu' = c_ticker cpu + t_cs div 2"
    and "c_curr cpu' = None"
    and "c_ready cpu' = c_ready cpu"
    and "c_finished cpu' = c_finished cpu"
    and "c_io cpu' = c_io cpu"
    and "c_trace cpu' = c_trace cpu"
    and "c_context cpu' = c_context cpu"
    and "c_preempt cpu' = c_preempt cpu"
    and "c_procs cpu' = c_procs cpu"
  using assms by (auto simp: CPU_remove_Inr)

lemma CPU_preempt_fields:
  assumes "CPU_preempt cpu p = Inr cpu'"
  shows "c_ticker cpu' = c_ticker cpu + 2 * (t_cs div 2)"
    and "c_curr cpu' = Some p"
    and "\<exists>c. c_curr cpu = Some c \<and> c_ready cpu' = c # c_ready cpu"
    and "c_finished cpu' = c_finished cpu"
    and "c_io cpu' = c_io cpu"
    and "c_trace cpu' = c_trace cpu"
    and "c_context cpu' = c_context cpu + 1"
    and "c_preempt cpu' = c_preempt cpu + 1"
    and "length (c_procs cpu') = length (c_procs cpu)"
  using assms by (auto simp: CPU_preempt_def Let_def split: option.splits)

lemma CPU_preempt_ok: "c_curr cpu = Some c \<Longrightarrow> \<exists>cpu'. CPU_preempt cpu p = Inr cpu'"
  by (simp add: CPU_preempt_def Let_def)

lemma CPU_remove_ok: "c_curr cpu = Some c \<Longrightarrow> \<exists>cpu'. CPU_remove cpu = Inr cpu'"
  by (simp add: CPU_remove_def Let_def)

subsection \<open>FCFS steps\<close>

lemma fcfs_check_fields [simp]:
  "c_ticker (snd (fcfs_check cpu)) = c_ticker cpu"
  "c_curr (snd (fcfs_check cpu)) = c_curr cpu"
  "c_ready (snd (fcfs_check cpu)) = c_ready cpu"
  "c_context (snd (fcfs_check cpu)) = c_context cpu"
  "c_preempt (snd (fcfs_check cpu)) = c_preempt cpu"
  "length (c_procs (snd (fcfs_check cpu))) = length (c_procs cpu)"
  by (simp_all add: fcfs_check_def Let_def split: option.splits)

lemma fcfs_check_removed: "fst (fcfs_check cpu) \<Longrightarrow> c_curr cpu \<noteq> None"
  by (auto simp: fcfs_check_def Let_def split: option.splits if_splits)

lemma fcfs_io_one_fields [simp]:
  "c_ticker (fcfs_io_one p cpu) = c_ticker cpu"
  "c_curr (fcfs_io_one p cpu) = c_curr cpu"
  "c_finished (fcfs_io_one p cpu) = c_finished cpu"
  "c_context (fcfs_io_one p cpu) = c_context cpu"
  "c_preempt (fcfs_io_one p cpu) = c_preempt cpu"
  "length (c_procs (fcfs_io_one p cpu)) = length (c_procs cpu)"
  by (simp_all add: fcfs_io_one_def Let_def)

lemma fcfs_io_fields [simp]:
  "c_ticker (fcfs_io cpu) = c_ticker cpu"
  "c_curr (fcfs_io cpu) = c_curr cpu"
  "c_finished (fcfs_io cpu) = c_finished cpu"
  "c_context (fcfs_io cpu) = c_context cpu"
  "c_preempt (fcfs_io cpu) = c_preempt cpu"
  "length (c_procs (fcfs_io cpu)) = length (c_procs cpu)"
  unfolding fcfs_io_def
  by (rule fold_keeps, simp)+

lemma fcfs_arrive_one_fields [simp]:
  "c_ticker (fcfs_arrive_one p cpu) = c_ticker cpu"
  "c_curr (fcfs_arrive_one p cpu) = c_curr cpu"
  "c_finished (fcfs_arrive_one p cpu) = c_finished cpu"
  "c_io (fcfs_arrive_one p cpu) = c_io cpu"
  "c_context (fcfs_arrive_one p cpu) = c_context cpu"
  "c_preempt (fcfs_arrive_one p cpu) = c_preempt cpu"
  "length (c_procs (fcfs_arrive_one p cpu)) = length (c_procs cpu)"
  by (simp_all add: fcfs_arrive_one_def Let_def)

lemma fcfs_arrivals_fields [simp]:
  "c_ticker (fcfs_arrivals cpu) = c_ticker cpu"
  "c_curr (fcfs_arrivals cpu) = c_curr cpu"
  "c_finished (fcfs_arrivals cpu) = c_finished cpu"
  "c_io (fcfs_arrivals cpu) = c_io cpu"
  "c_context (fcfs_arrivals cpu) = c_context cpu"
  "c_preempt (fcfs_arrivals cpu) = c_preempt cpu"
  "length (c_procs (fcfs_arrivals cpu)) = length (c_procs cpu)"
  unfolding fcfs_arrivals_def
  by (rule fold_keeps, simp)+

lemma fcfs_admit_fields [simp]:
  "c_finished (fcfs_admit cpu) = c_finished cpu"
  "c_io (fcfs_admit cpu) = c_io cpu"
  "c_preempt (fcfs_admit cpu) = c_preempt cpu"
  "length (c_procs (fcfs_admit cpu)) = length (c_procs cpu)"
  by (simp_all add: fcfs_admit_def Let_def split: list.splits)

lemma fcfs_admit_ticker: "c_ticker cpu \<le> c_ticker (fcfs_admit cpu)"
  by (simp add: fcfs_admit_def Let_def t_cs_half split: list.splits)

lemma fcfs_tick_ok: "\<exists>cpu'. fcfs_tick cpu = Inr cpu'"
proof (cases "fst (fcfs_check cpu)")
  case True
  then obtain c where "c_curr cpu = Some c"
    using fcfs_check_removed by blast
  then have "c_curr (fcfs_arrivals (fcfs_io (snd (fcfs_check cpu)))) = Some c" by simp
  from CPU_remove_ok[OF this] show ?thesis
    using True by (auto simp: fcfs_tick_def split_beta)
next
  case False
  then show ?thesis by (simp add: fcfs_tick_def split_beta)
qed

lemma fcfs_tick_cases:
  assumes "fcfs_tick cpu = Inr cpu'"
  obtains cpu4 where "fst (fcfs_check cpu)"
      and "CPU_remove (fcfs_arrivals (fcfs_io (snd (fcfs_check cpu)))) = Inr cpu4"
      and "cpu' = fcfs_admit cpu4"
    | "\<not> fst (fcfs_check cpu)"
      and "cpu' = fcfs_admit (fcfs_arrivals (fcfs_io (snd (fcfs_check cpu))))"
  using assms by (auto simp: fcfs_tick_def split_beta Let_def split: sum.splits if_splits)

lemma fcfs_tick_preempt: "fcfs_tick cpu = Inr cpu' \<Longrightarrow> c_preempt cpu' = c_preempt cpu"
  by (erule fcfs_tick_cases) (simp_all add: CPU_remove_fields)

lemma fcfs_tick_ticker:
  assumes "fcfs_tick cpu = Inr cpu'"
  shows "c_ticker cpu \<le> c_ticker cpu'"
  using assms
proof (cases rule: fcfs_tick_cases)
  case (1 cpu4)
  have "c_ticker cpu \<le> c_ticker cpu4"
    using CPU_remove_fields(1)[OF 1(2)] by (simp add: t_cs_half)
  also have "\<dots> \<le> c_ticker cpu'"
    unfolding 1(3) by (rule fcfs_admit_ticker)
  finally show ?thesis .
next
  case 2
  show ?thesis
    unfolding 2(2) using fcfs_admit_ticker[of "fcfs_arrivals (fcfs_io (snd (fcfs_check cpu)))"]
    by simp
qed


lemma fcfs_loop_rule:
  assumes ret: "fcfs_loop n cpu = Some (Inr r)"
    and init: "I cpu"
    and step: "\<And>c c'. I c \<Longrightarrow> fcfs_tick c = Inr c' \<Longrightarrow> Q c'"
    and adv: "\<And>c'. Q c' \<Longrightarrow> length (c_finished c') \<noteq> n \<Longrightarrow> I (advance c')"
  shows "Q r \<and> length (c_finished r) = n"
proof -
  have "m = n \<longrightarrow> I c \<longrightarrow> (\<forall>r. y = Inr r \<longrightarrow> Q r \<and> length (c_finished r) = n)"
    if "fcfs_loop m c = Some y" for m c y
    using that
  proof (induction m c y rule: fcfs_loop.raw_induct[rotated 1, consumes 1])
    case (1 loop m c y)
    show ?case
    proof (intro impI allI)
      fix r
      assume m: "m = n" and I: "I c" and y: "y = Inr r"
      obtain c' where t: "fcfs_tick c = Inr c'"
        using 1(2) y by (cases "fcfs_tick c") auto
      have Q: "Q c'" using step[OF I t] .
      show "Q r \<and> length (c_finished r) = n"
      proof (cases "length (c_finished c') = n")
        case True
        then have "r = c'" using 1(2) t y m by simp
        then show ?thesis using Q True by simp
      next
        case False
        then have "loop m (advance c') = Some y" using 1(2) t m by simp
        from 1(1)[OF this] adv[OF Q False] y m show ?thesis by blast
      qed
    qed
  qed
  then show ?thesis using ret init by blast
qed

lemma fcfs_loop_diverges:
  assumes init: "I cpu"
    and step: "\<And>c. I c \<Longrightarrow> \<exists>c'. fcfs_tick c = Inr c' \<and> length (c_finished c') \<noteq> n \<and> I (advance c')"
  shows "fcfs_loop n cpu = None"
proof -
  have "m = n \<longrightarrow> \<not> I c" if "fcfs_loop m c = Some y" for m c y
    using that
  proof (induction m c y rule: fcfs_loop.raw_induct[rotated 1, consumes 1])
    case (1 loop m c y)
    show ?case
    proof (intro impI notI)
      assume m: "m = n" and "I c"
      from step[OF this(2)] obtain c' where t: "fcfs_tick c = Inr c'"
        and nb: "length (c_finished c') \<noteq> n" and I': "I (advance c')" by blast
      have "loop m (advance c') = Some y" using 1(2) t nb m by simp
      from 1(1)[OF this] I' m show False by blast
    qed
  qed
  then show ?thesis using init by (cases "fcfs_loop n cpu") auto
qed


subsection \<open>SRT steps\<close>

lemma srt_check_fields [simp]:
  "c_ticker (snd (srt_check cpu)) = c_ticker cpu"
  "c_curr (snd (srt_check cpu)) = c_curr cpu"
  "c_ready (snd (srt_check cpu)) = c_ready cpu"
  "c_context (snd (srt_check cpu)) = c_context cpu"
  "c_preempt (snd (srt_check cpu)) = c_preempt cpu"
  "length (c_procs (snd (srt_check cpu))) = length (c_procs cpu)"
  by (simp_all add: srt_check_def Let_def split: option.splits)

lemma srt_check_removed: "fst (srt_check cpu) \<Longrightarrow> c_curr cpu \<noteq> None"
  by (auto simp: srt_check_def Let_def split: option.splits if_splits)

lemma srt_ready_one_fields [simp]:
  "c_ticker (srt_ready_one src p cpu) = c_ticker cpu"
  "c_curr (srt_ready_one src p cpu) = c_curr cpu"
  "c_finished (srt_ready_one src p cpu) = c_finished cpu"
  "c_io (srt_ready_one src p cpu) = c_io cpu"
  "c_context (srt_ready_one src p cpu) = c_context cpu"
  "c_preempt (srt_ready_one src p cpu) = c_preempt cpu"
  "length (c_procs (srt_ready_one src p cpu)) = length (c_procs cpu)"
  by (simp_all add: srt_ready_one_def Let_def)

lemma srt_ready_fold_fields [simp]:
  "c_ticker (fold (srt_ready_one src) ps cpu) = c_ticker cpu"
  "c_curr (fold (srt_ready_one src) ps cpu) = c_curr cpu"
  "c_finished (fold (srt_ready_one src) ps cpu) = c_finished cpu"
  "c_io (fold (srt_ready_one src) ps cpu) = c_io cpu"
  "c_context (fold (srt_ready_one src) ps cpu) = c_context cpu"
  "c_preempt (fold (srt_ready_one src) ps cpu) = c_preempt cpu"
  "length (c_procs (fold (srt_ready_one src) ps cpu)) = length (c_procs cpu)"
  by (rule fold_keeps, simp)+

lemma srt_newly_ready_cases:
  assumes "srt_newly_ready src cands removed cpu = Inr cpu'"
  obtains (preempted) best others c cpu2 where "cands = best # others"
      and "c_curr cpu = Some c" and "\<not> removed"
      and "p_remaining (proc cpu best) < p_remaining (proc cpu c)"
      and "CPU_preempt (emit (preempt_event src (c_ticker cpu) (p_pid (proc cpu best))
                                (p_pid (proc cpu c)) (get_queue cpu)) cpu) best = Inr cpu2"
      and "cpu' = fold (srt_ready_one src) others
                    (emit (StartedUsing (c_ticker cpu2) (p_pid (proc cpu2 best)) (get_queue cpu2)) cpu2)"
    | (plain) "cpu' = fold (srt_ready_one src) cands cpu"
      and "cands = [] \<or> c_curr cpu = None \<or> removed \<or>
           (\<exists>c. c_curr cpu = Some c \<and> \<not> p_remaining (proc cpu (hd cands)) < p_remaining (proc cpu c))"
  using assms
  by (auto simp: srt_newly_ready_def Let_def split: list.splits option.splits if_splits sum.splits)

lemma srt_newly_ready_ok: "\<exists>cpu'. srt_newly_ready src cands removed cpu = Inr cpu'"
proof (cases "\<exists>best others c. cands = best # others \<and> c_curr cpu = Some c \<and> \<not> removed
      \<and> p_remaining (proc cpu best) < p_remaining (proc cpu c)")
  case True
  then obtain best others c where *: "cands = best # others" "c_curr cpu = Some c" "\<not> removed"
    "p_remaining (proc cpu best) < p_remaining (proc cpu c)" by blast
  let ?e = "preempt_event src (c_ticker cpu) (p_pid (proc cpu best)) (p_pid (proc cpu c)) (get_queue cpu)"
  have "c_curr (emit ?e cpu) = Some c" using * by simp
  from CPU_preempt_ok[OF this] obtain cpu2 where "CPU_preempt (emit ?e cpu) best = Inr cpu2"
    by blast
  then show ?thesis using * by (simp add: srt_newly_ready_def Let_def)
next
  case False
  then show ?thesis
    by (auto simp: srt_newly_ready_def Let_def split: list.splits option.splits)
qed

lemma srt_newly_ready_ticker:
  assumes "srt_newly_ready src cands removed cpu = Inr cpu'"
  shows "c_ticker cpu \<le> c_ticker cpu'"
  using assms
proof (cases rule: srt_newly_ready_cases)
  case (preempted best others c cpu2)
  show ?thesis
    using CPU_preempt_fields(1)[OF preempted(5)] by (simp add: preempted(6) t_cs_half)
next
  case plain
  then show ?thesis by simp
qed


lemma srt_newly_ready_keeps:
  assumes "srt_newly_ready src cands removed cpu = Inr cpu'"
  shows "c_finished cpu' = c_finished cpu" and "c_io cpu' = c_io cpu"
    and "length (c_procs cpu') = length (c_procs cpu)"
  using assms
  by (cases rule: srt_newly_ready_cases; simp add: CPU_preempt_fields)+

lemma srt_admit_fields [simp]:
  "c_finished (srt_admit cpu) = c_finished cpu"
  "c_io (srt_admit cpu) = c_io cpu"
  "c_preempt (srt_admit cpu) = c_preempt cpu"
  "length (c_procs (srt_admit cpu)) = length (c_procs cpu)"
  by (simp_all add: srt_admit_def Let_def split: list.splits)

lemma srt_admit_ticker: "c_ticker cpu \<le> c_ticker (srt_admit cpu)"
  by (simp add: srt_admit_def Let_def t_cs_half split: list.splits)

lemma srt_tick_cases:
  assumes "srt_tick cpu = Inr cpu'"
  obtains cpu2 cpu3 cpu4 where
        "srt_newly_ready FromIO (srt_io_done (snd (srt_check cpu))) (fst (srt_check cpu))
           (snd (srt_check cpu)) = Inr cpu2"
    and "srt_newly_ready FromArrival (srt_arrived cpu2) (fst (srt_check cpu)) cpu2 = Inr cpu3"
    and "if fst (srt_check cpu) then CPU_remove cpu3 = Inr cpu4 else cpu4 = cpu3"
    and "cpu' = srt_admit cpu4"
  using assms by (auto simp: srt_tick_def split_beta Let_def split: sum.splits if_splits)

lemma srt_tick_ticker:
  assumes "srt_tick cpu = Inr cpu'"
  shows "c_ticker cpu \<le> c_ticker cpu'"
  using assms
proof (cases rule: srt_tick_cases)
  case (1 cpu2 cpu3 cpu4)
  have "c_ticker cpu \<le> c_ticker cpu2"
    using srt_newly_ready_ticker[OF 1(1)] by simp
  also have "\<dots> \<le> c_ticker cpu3"
    by (rule srt_newly_ready_ticker[OF 1(2)])
  also have "\<dots> \<le> c_ticker cpu4"
    using 1(3) by (auto simp: CPU_remove_fields t_cs_half split: if_splits)
  also have "\<dots> \<le> c_ticker cpu'"
    unfolding 1(4) by (rule srt_admit_ticker)
  finally show ?thesis .
qed

lemma srt_tick_ok: "\<exists>cpu'. srt_tick cpu = Inr cpu'"
proof -
  obtain cpu2 where 2: "srt_newly_ready FromIO (srt_io_done (snd (srt_check cpu)))
      (fst (srt_check cpu)) (snd (srt_check cpu)) = Inr cpu2"
    using srt_newly_ready_ok by blast
  obtain cpu3 where 3: "srt_newly_ready FromArrival (srt_arrived cpu2) (fst (srt_check cpu)) cpu2 = Inr cpu3"
    using srt_newly_ready_ok by blast
  show ?thesis
  proof (cases "fst (srt_check cpu)")
    case True
    then obtain c where c: "c_curr cpu = Some c"
      using srt_check_removed by blast
    have c2: "c_curr cpu2 = Some c"
      using 2 True c by (cases rule: srt_newly_ready_cases) simp_all
    have "c_curr cpu3 = Some c"
      using 3 True c2 by (cases rule: srt_newly_ready_cases) simp_all
    from CPU_remove_ok[OF this] show ?thesis
      using True 2 3 by (auto simp: srt_tick_def split_beta)
  next
    case False
    then show ?thesis using 2 3 by (simp add: srt_tick_def split_beta)
  qed
qed

lemma srt_loop_rule:
  assumes ret: "srt_loop n cpu = Some (Inr r)"
    and init: "I cpu"
    and step: "\<And>c c'. I c \<Longrightarrow> srt_tick c = Inr c' \<Longrightarrow> Q c'"
    and adv: "\<And>c'. Q c' \<Longrightarrow> length (c_finished c') \<noteq> n \<Longrightarrow> I (advance c')"
  shows "Q r \<and> length (c_finished r) = n"
proof -
  have "m = n \<longrightarrow> I c \<longrightarrow> (\<forall>r. y = Inr r \<longrightarrow> Q r \<and> length (c_finished r) = n)"
    if "srt_loop m c = Some y" for m c y
    using that
  proof (induction m c y rule: srt_loop.raw_induct[rotated 1, consumes 1])
    case (1 loop m c y)
    show ?case
    proof (intro impI allI)
      fix r
      assume m: "m = n" and I: "I c" and y: "y = Inr r"
      obtain c' where t: "srt_tick c = Inr c'"
        using 1(2) y by (cases "srt_tick c") auto
      have Q: "Q c'" using step[OF I t] .
      show "Q r \<and> length (c_finished r) = n"
      proof (cases "length (c_finished c') = n")
        case True
        then have "r = c'" using 1(2) t y m by simp
        then show ?thesis using Q True by simp
      next
        case False
        then have "loop m (advance c') = Some y" using 1(2) t m by simp
        from 1(1)[OF this] adv[OF Q False] y m show ?thesis by blast
      qed
    qed
  qed
  then show ?thesis using ret init by blast
qed


subsection \<open>The separation invariant\<close>

lemma set_update_subset: "set (AList.update k u al) \<subseteq> insert (k, u) (set al)"
  by (induction al) auto

lemma pend_update: "pend s t (AList.update k u io) \<subseteq> insert k (pend s t io)"
  using set_update_subset[of k u io] by (auto simp: pend_def)

lemma pend_mono:
  "set io' \<subseteq> set io \<Longrightarrow> (\<And>u. \<not> bnd s' u t' \<Longrightarrow> \<not> bnd s u t) \<Longrightarrow>
   pend s' t' io' \<subseteq> pend s t io"
  by (auto simp: pend_def)

lemma inv_on_block:
  assumes "inv_on False True True (Some k) rd io fin t n arr"
  shows "inv_on True True True (Some k) rd (AList.update k u io) fin t n arr"
proof -
  have P: "pend True t (AList.update k u io) \<subseteq> insert k (pend True t io)"
    by (rule pend_update)
  have K: "fst ` set (AList.update k u io) = insert k (fst ` set io)"
    by (simp add: dom_update)
  show ?thesis
    using assms P unfolding inv_on_def K
    by (simp add: cur_set_def distinct_update) blast
qed

lemma inv_on_term:
  assumes "inv_on False True True (Some k) rd io fin t n arr"
  shows "inv_on True True True (Some k) rd io (AList.update k v fin) t (Suc n) arr"
proof -
  have K: "fst ` set (AList.update k v fin) = insert k (fst ` set fin)"
    by (simp add: dom_update)
  have "k \<notin> fst ` set fin"
    using assms by (simp add: inv_on_def cur_set_def)
  then have L: "length (AList.update k v fin) = Suc (length fin)"
    by (induction fin) auto
  show ?thesis
    using assms unfolding inv_on_def K L
    by (simp add: cur_set_def)
qed

lemma inv_onD:
  assumes "inv_on r s a cu rd io fin t n arr"
  shows "distinct rd" and "distinct (map fst io)"
    and "cur_set r cu \<inter> set rd = {}" and "cur_set r cu \<inter> pend s t io = {}"
    and "cur_set r cu \<inter> fst ` set fin = {}"
    and "set rd \<inter> pend s t io = {}" and "set rd \<inter> fst ` set fin = {}"
    and "pend s t io \<inter> fst ` set fin = {}"
    and "n = length fin"
    and "\<And>p. p \<in> set_option cu \<union> set rd \<union> fst ` set io \<union> fst ` set fin \<Longrightarrow> bnd a (arr p) t"
proof -
  show "distinct rd" "distinct (map fst io)"
    "cur_set r cu \<inter> set rd = {}" "cur_set r cu \<inter> pend s t io = {}"
    "cur_set r cu \<inter> fst ` set fin = {}"
    "set rd \<inter> pend s t io = {}" "set rd \<inter> fst ` set fin = {}"
    "pend s t io \<inter> fst ` set fin = {}" "n = length fin"
    using assms unfolding inv_on_def by simp_all
  have "\<forall>p \<in> set_option cu \<union> set rd \<union> fst ` set io \<union> fst ` set fin. bnd a (arr p) t"
    using assms unfolding inv_on_def by simp
  then show "\<And>p. p \<in> set_option cu \<union> set rd \<union> fst ` set io \<union> fst ` set fin \<Longrightarrow> bnd a (arr p) t"
    by (rule bspec)
qed

lemma inv_onI:
  assumes "distinct rd" and "distinct (map fst io)"
    and "cur_set r cu \<inter> set rd = {}" and "cur_set r cu \<inter> pend s t io = {}"
    and "cur_set r cu \<inter> fst ` set fin = {}"
    and "set rd \<inter> pend s t io = {}" and "set rd \<inter> fst ` set fin = {}"
    and "pend s t io \<inter> fst ` set fin = {}"
    and "n = length fin"
    and "\<And>p. p \<in> set_option cu \<union> set rd \<union> fst ` set io \<union> fst ` set fin \<Longrightarrow> bnd a (arr p) t"
  shows "inv_on r s a cu rd io fin t n arr"
  unfolding inv_on_def
  by (intro conjI ballI) (fact assms)+

lemma inv_on_newly_ready:
  assumes inv: "inv_on r s a cu rd io fin t n arr"
    and fresh: "set cands \<inter> (cur_set r cu \<union> set rd \<union> fst ` set fin \<union> pend s' t' io') = {}"
    and io': "set io' \<subseteq> set io" "distinct (map fst io')"
    and pend: "pend s' t' io' \<subseteq> pend s t io"
    and old: "\<And>x. bnd a x t \<Longrightarrow> bnd a' x t'"
    and new: "\<And>p. p \<in> set cands \<Longrightarrow> bnd a' (arr p) t'"
    and res: "(cu' = cu \<and> set rd' = set rd \<union> set cands) \<or>
              (\<not> r \<and> (\<exists>k best. cu = Some k \<and> best \<in> set cands \<and> cu' = Some best \<and>
                  set rd' = insert k (set rd \<union> (set cands - {best}))))"
    and drd: "distinct rd'"
  shows "inv_on r s' a' cu' rd' io' fin t' n arr"
proof -
  note D = inv_onD[OF inv]
  have keys: "fst ` set io' \<subseteq> fst ` set io" using io'(1) by auto
  have f1: "set cands \<inter> cur_set r cu = {}" and f2: "set cands \<inter> set rd = {}"
    and f3: "set cands \<inter> fst ` set fin = {}" and f4: "set cands \<inter> pend s' t' io' = {}"
    using fresh by blast+
  have P1: "cur_set r cu \<inter> pend s' t' io' = {}" using D(4) pend by blast
  have P2: "set rd \<inter> pend s' t' io' = {}" using D(6) pend by blast
  have P3: "pend s' t' io' \<inter> fst ` set fin = {}" using D(8) pend by blast
  have oldb: "bnd a' (arr p) t'"
    if "p \<in> set_option cu \<union> set rd \<union> fst ` set io \<union> fst ` set fin" for p
    using old[OF D(10)[OF that]] .
  from res show ?thesis
  proof
    assume *: "cu' = cu \<and> set rd' = set rd \<union> set cands"
    then have cu: "cu' = cu" and rd: "set rd' = set rd \<union> set cands" by simp_all
    show ?thesis
    proof (rule inv_onI)
      show "distinct rd'" by (rule drd)
      show "distinct (map fst io')" by (rule io'(2))
      show "cur_set r cu' \<inter> set rd' = {}" unfolding cu rd using D(3) f1 by blast
      show "cur_set r cu' \<inter> pend s' t' io' = {}" unfolding cu by (rule P1)
      show "cur_set r cu' \<inter> fst ` set fin = {}" unfolding cu by (rule D(5))
      show "set rd' \<inter> pend s' t' io' = {}" unfolding rd using P2 f4 by blast
      show "set rd' \<inter> fst ` set fin = {}" unfolding rd using D(7) f3 by blast
      show "pend s' t' io' \<inter> fst ` set fin = {}" by (rule P3)
      show "n = length fin" by (rule D(9))
      fix p assume "p \<in> set_option cu' \<union> set rd' \<union> fst ` set io' \<union> fst ` set fin"
      then have "p \<in> set cands \<or> p \<in> set_option cu \<union> set rd \<union> fst ` set io \<union> fst ` set fin"
        unfolding cu rd using keys by blast
      then show "bnd a' (arr p) t'" using new oldb by blast
    qed
  next
    assume "\<not> r \<and> (\<exists>k best. cu = Some k \<and> best \<in> set cands \<and> cu' = Some best \<and>
                  set rd' = insert k (set rd \<union> (set cands - {best})))"
    then obtain k best where r: "\<not> r" and k: "cu = Some k" and best: "best \<in> set cands"
      and cu: "cu' = Some best"
      and rd: "set rd' = insert k (set rd \<union> (set cands - {best}))" by blast
    have c: "cur_set r cu = {k}" and c': "cur_set r cu' = {best}"
      using r k cu by (simp_all add: cur_set_def)
    show ?thesis
    proof (rule inv_onI)
      show "distinct rd'" by (rule drd)
      show "distinct (map fst io')" by (rule io'(2))
      show "cur_set r cu' \<inter> set rd' = {}"
        unfolding c' rd using best f1 f2 unfolding c by blast
      show "cur_set r cu' \<inter> pend s' t' io' = {}" unfolding c' using best f4 by blast
      show "cur_set r cu' \<inter> fst ` set fin = {}" unfolding c' using best f3 by blast
      show "set rd' \<inter> pend s' t' io' = {}" unfolding rd using P1 P2 f4 unfolding c by blast
      show "set rd' \<inter> fst ` set fin = {}" unfolding rd using D(5) D(7) f3 unfolding c by blast
      show "pend s' t' io' \<inter> fst ` set fin = {}" by (rule P3)
      show "n = length fin" by (rule D(9))
      fix p assume "p \<in> set_option cu' \<union> set rd' \<union> fst ` set io' \<union> fst ` set fin"
      then have "p \<in> set cands \<or> p \<in> set_option cu \<union> set rd \<union> fst ` set io \<union> fst ` set fin"
        unfolding cu rd k using keys best by auto
      then show "bnd a' (arr p) t'" using new oldb by blast
    qed
  qed
qed

lemma inv_on_later:
  assumes inv: "inv_on r False False cu rd io fin t n arr" and le: "t \<le> t'"
  shows "inv_on r False False cu rd io fin t' n arr"
proof -
  note D = inv_onD[OF inv]
  have P: "pend False t' io \<subseteq> pend False t io"
    using le by (auto simp: pend_def bnd_def)
  show ?thesis
  proof (rule inv_onI)
    show "distinct rd" "distinct (map fst io)" "cur_set r cu \<inter> set rd = {}"
      "cur_set r cu \<inter> fst ` set fin = {}" "set rd \<inter> fst ` set fin = {}" "n = length fin"
      by (rule D)+
    show "cur_set r cu \<inter> pend False t' io = {}" using D(4) P by blast
    show "set rd \<inter> pend False t' io = {}" using D(6) P by blast
    show "pend False t' io \<inter> fst ` set fin = {}" using D(8) P by blast
    fix p assume "p \<in> set_option cu \<union> set rd \<union> fst ` set io \<union> fst ` set fin"
    from D(10)[OF this] le show "bnd False (arr p) t'" by (simp add: bnd_def)
  qed
qed

lemma inv_on_remove:
  assumes "inv_on r False False cu rd io fin t n arr" and "t \<le> t'"
  shows "inv_on False False False None rd io fin t' n arr"
proof -
  note D = inv_onD[OF inv_on_later[OF assms]]
  show ?thesis
  proof (rule inv_onI)
    show "distinct rd" "distinct (map fst io)" "set rd \<inter> pend False t' io = {}"
      "set rd \<inter> fst ` set fin = {}" "pend False t' io \<inter> fst ` set fin = {}" "n = length fin"
      by (rule D)+
    show "cur_set False None \<inter> set rd = {}" "cur_set False None \<inter> pend False t' io = {}"
      "cur_set False None \<inter> fst ` set fin = {}"
      by (simp_all add: cur_set_def)
    fix p assume "p \<in> set_option None \<union> set rd \<union> fst ` set io \<union> fst ` set fin"
    then have "p \<in> set_option cu \<union> set rd \<union> fst ` set io \<union> fst ` set fin" by simp
    then show "bnd False (arr p) t'" by (rule D(10))
  qed
qed

lemma inv_on_admit:
  assumes "inv_on False False False None (p # rest) io fin t n arr" and "t \<le> t'"
  shows "inv_on False False False (Some p) rest io fin t' n arr"
proof -
  note D = inv_onD[OF inv_on_later[OF assms]]
  show ?thesis
  proof (rule inv_onI)
    show "distinct rest" using D(1) by simp
    show "distinct (map fst io)" "pend False t' io \<inter> fst ` set fin = {}" "n = length fin"
      by (rule D)+
    show "cur_set False (Some p) \<inter> set rest = {}" using D(1) by (simp add: cur_set_def)
    show "cur_set False (Some p) \<inter> pend False t' io = {}" using D(6) by (simp add: cur_set_def)
    show "cur_set False (Some p) \<inter> fst ` set fin = {}" using D(7) by (simp add: cur_set_def)
    show "set rest \<inter> pend False t' io = {}" using D(6) by auto
    show "set rest \<inter> fst ` set fin = {}" using D(7) by auto
    fix q assume "q \<in> set_option (Some p) \<union> set rest \<union> fst ` set io \<union> fst ` set fin"
    then have "q \<in> set_option None \<union> set (p # rest) \<union> fst ` set io \<union> fst ` set fin" by auto
    then show "bnd False (arr q) t'" by (rule D(10))
  qed
qed

lemma inv_on_advance:
  assumes "inv_on False False False cu rd io fin t n arr"
  shows "inv_on False True True cu rd io fin (t + 1) n arr"
proof -
  note D = inv_onD[OF assms]
  have P: "pend True (t + 1) io = pend False t io"
    by (auto simp: pend_def bnd_def)
  show ?thesis
  proof (rule inv_onI)
    show "distinct rd" "distinct (map fst io)" "cur_set False cu \<inter> set rd = {}"
      "cur_set False cu \<inter> fst ` set fin = {}" "set rd \<inter> fst ` set fin = {}" "n = length fin"
      by (rule D)+
    show "cur_set False cu \<inter> pend True (t + 1) io = {}" unfolding P by (rule D)
    show "set rd \<inter> pend True (t + 1) io = {}" unfolding P by (rule D)
    show "pend True (t + 1) io \<inter> fst ` set fin = {}" unfolding P by (rule D)
    fix p assume "p \<in> set_option cu \<union> set rd \<union> fst ` set io \<union> fst ` set fin"
    from D(10)[OF this] show "bnd True (arr p) (t + 1)" by (simp add: bnd_def)
  qed
qed

lemma terminated_count_simps [simp]:
  "terminated_count [] = 0"
  "terminated_count (e # tr) = (if is_terminated e then Suc (terminated_count tr) else terminated_count tr)"
  "terminated_count (tr @ tr') = terminated_count tr + terminated_count tr'"
  by (simp_all add: terminated_count_def)

lemma is_terminated_simps [simp]:
  "is_terminated (Terminated t pid q)"
  "\<not> is_terminated (SimStarted alg t q)"
  "\<not> is_terminated (BurstCompleted t pid k q)"
  "\<not> is_terminated (SwitchingOut t pid u q)"
  "\<not> is_terminated (IOCompleted t pid q)"
  "\<not> is_terminated (Arrived t pid q)"
  "\<not> is_terminated (StartedUsing t pid q)"
  "\<not> is_terminated (StartedUsingRemaining t pid k q)"
  "\<not> is_terminated (IOWillPreempt t pid pid' q)"
  "\<not> is_terminated (ArrivalWillPreempt t pid pid' q)"
  "\<not> is_terminated (SimEnded alg t)"
  by (simp_all add: is_terminated_def)

lemma is_terminated_origin [simp]:
  "\<not> is_terminated (preempt_event src t pid pid' q)"
  "\<not> is_terminated (ready_event src t pid q)"
  by (cases src; simp add: preempt_event_def ready_event_def)+

lemma arrival_of_upd_proc:
  assumes "\<And>q. p_arrival (f q) = p_arrival q"
  shows "arrival_of (upd_proc i f c) = arrival_of c"
proof
  fix p
  show "arrival_of (upd_proc i f c) p = arrival_of c p"
    by (cases "i < length (c_procs c)")
      (auto simp: arrival_of_def proc_def upd_proc_def assms nth_list_update list_update_beyond)
qed

lemma arrival_of_cong: "c_procs c' = c_procs c \<Longrightarrow> arrival_of c' = arrival_of c"
  by (simp add: arrival_of_def proc_def fun_eq_iff)

lemma arrival_of_simps [simp]:
  "arrival_of (upd_proc i (\<lambda>q. q\<lparr>p_num := x q\<rparr>) c) = arrival_of c"
  "arrival_of (upd_proc i (\<lambda>q. q\<lparr>p_remaining := y q\<rparr>) c) = arrival_of c"
  "arrival_of (upd_proc i (\<lambda>q. q\<lparr>p_start := z\<rparr>) c) = arrival_of c"
  "arrival_of (upd_proc i (\<lambda>q. q\<lparr>p_readied := z\<rparr>) c) = arrival_of c"
  "arrival_of (upd_proc i (\<lambda>q. q\<lparr>p_last_arrival := z\<rparr>) c) = arrival_of c"
  "arrival_of (upd_proc i (\<lambda>q. q\<lparr>p_readied := z, p_last_arrival := z'\<rparr>) c) = arrival_of c"
  "arrival_of (emit e c) = arrival_of c"
  "arrival_of (c\<lparr>c_io := io\<rparr>) = arrival_of c"
  "arrival_of (c\<lparr>c_finished := fin\<rparr>) = arrival_of c"
  "arrival_of (c\<lparr>c_ready := rd\<rparr>) = arrival_of c"
  "arrival_of (advance c) = arrival_of c"
  by (simp_all add: arrival_of_upd_proc)
     (simp_all add: arrival_of_def proc_def emit_def advance_def fun_eq_iff)

lemma arrival_of_ops [simp]:
  "arrival_of (CPU_add c p) = arrival_of c"
  "arrival_of (CPU_ready c p) = arrival_of c"
proof -
  have "arrival_of (CPU_add c p) = arrival_of (upd_proc p (\<lambda>q. q\<lparr>p_start := c_ticker c\<rparr>) c)"
    by (rule arrival_of_cong) (simp add: CPU_add_def Let_def)
  then show "arrival_of (CPU_add c p) = arrival_of c" by simp
  have "arrival_of (CPU_ready c p) =
      arrival_of (upd_proc p (\<lambda>q. q\<lparr>p_readied := c_ticker c, p_last_arrival := c_ticker c\<rparr>) c)"
    by (rule arrival_of_cong) (simp add: CPU_ready_def Let_def)
  then show "arrival_of (CPU_ready c p) = arrival_of c" by simp
qed

lemma arrival_of_remove: "CPU_remove c = Inr c' \<Longrightarrow> arrival_of c' = arrival_of c"
  by (auto simp: CPU_remove_Inr arrival_of_def proc_def fun_eq_iff)

lemma arrival_of_preempt: "CPU_preempt c p = Inr c' \<Longrightarrow> arrival_of c' = arrival_of c"
proof -
  assume a: "CPU_preempt c p = Inr c'"
  then obtain k where k: "c_curr c = Some k"
    by (auto simp: CPU_preempt_def Let_def split: option.splits)
  have "arrival_of c' =
     arrival_of (upd_proc p (\<lambda>q. q\<lparr>p_remaining := p_remaining q - 1\<rparr>)
        (upd_proc k (\<lambda>q. q\<lparr>p_readied := c_ticker c + t_cs div 2\<rparr>) c))"
    using a k by (intro arrival_of_cong) (auto simp: CPU_preempt_def Let_def upd_proc_def)
  then show ?thesis by simp
qed

lemma fcfs_check_sepinv:
  assumes "sepinv False True True c"
  shows "sepinv (fst (fcfs_check c)) True True (snd (fcfs_check c))"
proof (cases "c_curr c")
  case None
  then show ?thesis using assms by (simp add: fcfs_check_def)
next
  case (Some k)
  note inv = assms[unfolded sepinv_def Some]
  show ?thesis
  proof (cases "p_remaining (proc c k) \<le> 0")
    case False
    then show ?thesis
      using assms Some by (simp add: fcfs_check_def sepinv_def)
  next
    case True
    show ?thesis
    proof (cases "0 < p_num (proc (upd_proc k (\<lambda>q. q\<lparr>p_num := p_num q - 1\<rparr>) c) k)")
      case True
      with \<open>p_remaining (proc c k) \<le> 0\<close> show ?thesis
        using Some inv_on_block[OF inv]
        by (simp add: fcfs_check_def sepinv_def Let_def)
    next
      case False
      with \<open>p_remaining (proc c k) \<le> 0\<close> show ?thesis
        using Some inv_on_term[OF inv]
        by (simp add: fcfs_check_def sepinv_def Let_def)
    qed
  qed
qed

lemma srt_check_sepinv:
  assumes "sepinv False True True c"
  shows "sepinv (fst (srt_check c)) True True (snd (srt_check c))"
proof (cases "c_curr c")
  case None
  then show ?thesis using assms by (simp add: srt_check_def)
next
  case (Some k)
  note inv = assms[unfolded sepinv_def Some]
  show ?thesis
  proof (cases "p_remaining (proc c k) \<le> 0")
    case False
    then show ?thesis
      using assms Some by (simp add: srt_check_def sepinv_def)
  next
    case True
    show ?thesis
    proof (cases "0 < p_num (proc (upd_proc k (\<lambda>q. q\<lparr>p_num := p_num q - 1\<rparr>) c) k)")
      case True
      with \<open>p_remaining (proc c k) \<le> 0\<close> show ?thesis
        using Some inv_on_block[OF inv]
        by (simp add: srt_check_def sepinv_def Let_def)
    next
      case False
      with \<open>p_remaining (proc c k) \<le> 0\<close> show ?thesis
        using Some inv_on_term[OF inv]
        by (simp add: srt_check_def sepinv_def Let_def)
    qed
  qed
qed

lemma pend_keys: "pend s t io \<subseteq> fst ` set io"
  by (force simp: pend_def)

lemma at_now_fresh:
  assumes inv: "inv_on r True a cu rd io fin t n arr"
    and K: "K \<subseteq> {p. (p, t) \<in> set io}"
    and io': "set io' \<subseteq> set io"
    and le: "t \<le> t'"
  shows "K \<inter> (cur_set r cu \<union> set rd \<union> fst ` set fin \<union> pend False t' io') = {}"
proof -
  note D = inv_onD[OF inv]
  have "p \<notin> cur_set r cu \<union> set rd \<union> fst ` set fin \<union> pend False t' io'" if "p \<in> K" for p
  proof -
    have pt: "(p, t) \<in> set io" using that K by blast
    then have "p \<in> pend True t io" by (auto simp: pend_def bnd_def)
    then have a: "p \<notin> cur_set r cu" "p \<notin> set rd" "p \<notin> fst ` set fin"
      using D(4) D(6) D(8) by blast+
    have "p \<notin> pend False t' io'"
    proof
      assume "p \<in> pend False t' io'"
      then obtain u where u: "(p, u) \<in> set io'" "\<not> u \<le> t'"
        by (auto simp: pend_def bnd_def)
      then have "(p, u) \<in> set io" using io' by blast
      then have "u = t" using pt D(2) by (meson eq_key_imp_eq_value)
      then show False using u(2) le by simp
    qed
    then show ?thesis using a by blast
  qed
  then show ?thesis by blast
qed

lemma arriving_fresh:
  assumes inv: "inv_on r s True cu rd io fin t n arr"
    and K: "K \<subseteq> {p. arr p = t}"
  shows "K \<inter> (cur_set r cu \<union> set rd \<union> fst ` set fin \<union> pend s' t' io) = {}"
proof -
  note D = inv_onD[OF inv]
  have "p \<notin> cur_set r cu \<union> set rd \<union> fst ` set fin \<union> pend s' t' io" if "p \<in> K" for p
  proof
    assume "p \<in> cur_set r cu \<union> set rd \<union> fst ` set fin \<union> pend s' t' io"
    then have "p \<in> set_option cu \<union> set rd \<union> fst ` set io \<union> fst ` set fin"
      using pend_keys[of s' t' io] by (auto simp: cur_set_def split: if_splits)
    from D(10)[OF this] have "arr p < t" by (simp add: bnd_def)
    then show False using that K by auto
  qed
  then show ?thesis by blast
qed

lemma fcfs_io_one_more [simp]:
  "c_ready (fcfs_io_one p c) = c_ready c @ [p]"
  "c_io (fcfs_io_one p c) = AList.delete p (c_io c)"
  "terminated_count (c_trace (fcfs_io_one p c)) = terminated_count (c_trace c)"
  "arrival_of (fcfs_io_one p c) = arrival_of c"
  by (simp_all add: fcfs_io_one_def Let_def)

lemma fcfs_io_fold:
  "c_ready (fold fcfs_io_one ps c) = c_ready c @ ps"
  "set (c_io (fold fcfs_io_one ps c)) \<subseteq> set (c_io c)"
  "distinct (map fst (c_io c)) \<Longrightarrow> distinct (map fst (c_io (fold fcfs_io_one ps c)))"
  "terminated_count (c_trace (fold fcfs_io_one ps c)) = terminated_count (c_trace c)"
  "arrival_of (fold fcfs_io_one ps c) = arrival_of c"
proof (induction ps arbitrary: c)
  case Nil
  {
    case 1 show ?case by simp
  next
    case 2 show ?case by simp
  next
    case 3 then show ?case by simp
  next
    case 4 show ?case by simp
  next
    case 5 show ?case by simp
  }
next
  case (Cons p ps)
  {
    case 1 show ?case by (simp add: Cons.IH(1))
  next
    case 2
    have "set (c_io (fold fcfs_io_one ps (fcfs_io_one p c))) \<subseteq> set (AList.delete p (c_io c))"
      using Cons.IH(2)[of "fcfs_io_one p c"] by simp
    also have "\<dots> \<subseteq> set (c_io c)" by (auto simp: AList.delete_eq)
    finally show ?case by simp
  next
    case 3
    then have "distinct (map fst (c_io (fcfs_io_one p c)))" by (simp add: distinct_delete)
    from Cons.IH(3)[OF this] show ?case by simp
  next
    case 4 show ?case by (simp add: Cons.IH(4))
  next
    case 5 show ?case by (simp add: Cons.IH(5))
  }
qed

lemma fcfs_io_effect:
  "c_ready (fcfs_io c) = c_ready c @ fcfs_io_done c"
  "set (c_io (fcfs_io c)) \<subseteq> set (c_io c)"
  "distinct (map fst (c_io c)) \<Longrightarrow> distinct (map fst (c_io (fcfs_io c)))"
  "terminated_count (c_trace (fcfs_io c)) = terminated_count (c_trace c)"
  "arrival_of (fcfs_io c) = arrival_of c"
  by (simp_all add: fcfs_io_def fcfs_io_fold)

lemma fcfs_io_done_set:
  "set (fcfs_io_done c) = {p. (p, c_ticker c) \<in> set (c_io c)}"
  by (force simp: fcfs_io_done_def)

lemma fcfs_io_done_distinct:
  "distinct (map fst (c_io c)) \<Longrightarrow> distinct (fcfs_io_done c)"
  by (simp add: fcfs_io_done_def distinct_map_filter)

lemma fcfs_io_sepinv:
  assumes "sepinv r True True c"
  shows "sepinv r False True (fcfs_io c)"
proof -
  note inv = assms[unfolded sepinv_def]
  note D = inv_onD[OF inv]
  let ?c' = "fcfs_io c"
  have sub: "set (c_io ?c') \<subseteq> set (c_io c)" by (rule fcfs_io_effect(2))
  have K: "set (fcfs_io_done c) \<subseteq> {p. (p, c_ticker c) \<in> set (c_io c)}"
    by (simp add: fcfs_io_done_set)
  have fresh: "set (fcfs_io_done c) \<inter> (cur_set r (c_curr c) \<union> set (c_ready c) \<union>
      fst ` set (c_finished c) \<union> pend False (c_ticker c) (c_io ?c')) = {}"
    by (rule at_now_fresh[OF inv K sub]) simp
  have "inv_on r False True (c_curr c) (c_ready c @ fcfs_io_done c) (c_io ?c') (c_finished c)
          (c_ticker c) (terminated_count (c_trace c)) (arrival_of c)"
  proof (rule inv_on_newly_ready[OF inv fresh sub])
    show "distinct (map fst (c_io ?c'))" by (rule fcfs_io_effect(3)[OF D(2)])
    show "pend False (c_ticker c) (c_io ?c') \<subseteq> pend True (c_ticker c) (c_io c)"
      by (rule pend_mono[OF sub]) (simp add: bnd_def)
    show "bnd True x (c_ticker c) \<Longrightarrow> bnd True x (c_ticker c)" for x .
    show "bnd True (arrival_of c p) (c_ticker c)" if "p \<in> set (fcfs_io_done c)" for p
    proof -
      have "p \<in> fst ` set (c_io c)" using that K by force
      then show ?thesis using D(10) by blast
    qed
    show "(c_curr c = c_curr c \<and> set (c_ready c @ fcfs_io_done c) = set (c_ready c) \<union> set (fcfs_io_done c)) \<or>
          (\<not> r \<and> (\<exists>k best. c_curr c = Some k \<and> best \<in> set (fcfs_io_done c) \<and> c_curr c = Some best \<and>
              set (c_ready c @ fcfs_io_done c) = insert k (set (c_ready c) \<union> (set (fcfs_io_done c) - {best}))))"
      by simp
    show "distinct (c_ready c @ fcfs_io_done c)"
      using D(1) fcfs_io_done_distinct[OF D(2)] fresh by auto
  qed
  then show ?thesis
    by (simp add: sepinv_def fcfs_io_effect)
qed

lemma fcfs_arrive_one_more [simp]:
  "c_ready (fcfs_arrive_one i c) =
     (if arrival_of c i = c_ticker c then c_ready c @ [i] else c_ready c)"
  "terminated_count (c_trace (fcfs_arrive_one i c)) = terminated_count (c_trace c)"
  "arrival_of (fcfs_arrive_one i c) = arrival_of c"
  by (simp_all add: fcfs_arrive_one_def Let_def arrival_of_def)

lemma fcfs_arrive_fold:
  "c_ready (fold fcfs_arrive_one is c) = c_ready c @ filter (\<lambda>i. arrival_of c i = c_ticker c) is"
  "terminated_count (c_trace (fold fcfs_arrive_one is c)) = terminated_count (c_trace c)"
  "arrival_of (fold fcfs_arrive_one is c) = arrival_of c"
proof (induction "is" arbitrary: c)
  case Nil
  {
    case 1 show ?case by simp
  next
    case 2 show ?case by simp
  next
    case 3 show ?case by simp
  }
next
  case (Cons i "is")
  {
    case 1 show ?case by (simp add: Cons.IH(1))
  next
    case 2 show ?case by (simp add: Cons.IH(2))
  next
    case 3 show ?case by (simp add: Cons.IH(3))
  }
qed

lemma fcfs_arrivals_effect:
  "c_ready (fcfs_arrivals c) =
     c_ready c @ filter (\<lambda>i. arrival_of c i = c_ticker c) [0 ..< length (c_procs c)]"
  "terminated_count (c_trace (fcfs_arrivals c)) = terminated_count (c_trace c)"
  "arrival_of (fcfs_arrivals c) = arrival_of c"
  by (simp_all add: fcfs_arrivals_def fcfs_arrive_fold)

lemma fcfs_arrivals_sepinv:
  assumes "sepinv r False True c"
  shows "sepinv r False False (fcfs_arrivals c)"
proof -
  note inv = assms[unfolded sepinv_def]
  note D = inv_onD[OF inv]
  let ?new = "filter (\<lambda>i. arrival_of c i = c_ticker c) [0 ..< length (c_procs c)]"
  have K: "set ?new \<subseteq> {p. arrival_of c p = c_ticker c}" by auto
  have fresh: "set ?new \<inter> (cur_set r (c_curr c) \<union> set (c_ready c) \<union>
      fst ` set (c_finished c) \<union> pend False (c_ticker c) (c_io c)) = {}"
    by (rule arriving_fresh[OF inv K])
  have "inv_on r False False (c_curr c) (c_ready c @ ?new) (c_io c) (c_finished c)
          (c_ticker c) (terminated_count (c_trace c)) (arrival_of c)"
  proof (rule inv_on_newly_ready[OF inv fresh])
    show "set (c_io c) \<subseteq> set (c_io c)" ..
    show "distinct (map fst (c_io c))" by (rule D(2))
    show "pend False (c_ticker c) (c_io c) \<subseteq> pend False (c_ticker c) (c_io c)" ..
    show "bnd True x (c_ticker c) \<Longrightarrow> bnd False x (c_ticker c)" for x by (simp add: bnd_def)
    show "bnd False (arrival_of c p) (c_ticker c)" if "p \<in> set ?new" for p
      using that by (simp add: bnd_def)
    show "(c_curr c = c_curr c \<and> set (c_ready c @ ?new) = set (c_ready c) \<union> set ?new) \<or>
          (\<not> r \<and> (\<exists>k best. c_curr c = Some k \<and> best \<in> set ?new \<and> c_curr c = Some best \<and>
              set (c_ready c @ ?new) = insert k (set (c_ready c) \<union> (set ?new - {best}))))"
      by simp
    show "distinct (c_ready c @ ?new)"
      using D(1) fresh by auto
  qed
  then show ?thesis
    by (simp add: sepinv_def fcfs_arrivals_effect)
qed

lemma remove_sepinv:
  assumes "sepinv r False False c" and "CPU_remove c = Inr c'"
  shows "sepinv False False False c'"
proof -
  have "inv_on False False False None (c_ready c) (c_io c) (c_finished c) (c_ticker c + t_cs div 2)
      (terminated_count (c_trace c)) (arrival_of c)"
    by (rule inv_on_remove[OF assms(1)[unfolded sepinv_def]]) (simp add: t_cs_half)
  then show ?thesis
    by (simp add: sepinv_def CPU_remove_fields[OF assms(2)] arrival_of_remove[OF assms(2)])
qed

lemma fcfs_admit_sepinv:
  assumes "sepinv False False False c"
  shows "sepinv False False False (fcfs_admit c)"
proof (cases "c_curr c = None \<and> c_ready c \<noteq> []")
  case False
  then show ?thesis using assms by (auto simp: fcfs_admit_def split: list.splits)
next
  case True
  then obtain p rest where rd: "c_ready c = p # rest" by (cases "c_ready c") auto
  have "inv_on False False False (Some p) rest (c_io c) (c_finished c) (c_ticker c + t_cs div 2)
      (terminated_count (c_trace c)) (arrival_of c)"
    using assms True rd
    by (intro inv_on_admit[where t = "c_ticker c"]) (simp_all add: sepinv_def t_cs_half)
  then show ?thesis
    using True rd by (simp add: sepinv_def fcfs_admit_def Let_def)
qed

lemma advance_sepinv:
  assumes "sepinv False False False c"
  shows "sepinv False True True (advance c)"
  using inv_on_advance[OF assms[unfolded sepinv_def]]
  by (simp add: sepinv_def) (simp add: advance_def)

lemma fcfs_tick_sepinv:
  assumes "sepinv False True True c" and "fcfs_tick c = Inr c'"
  shows "sepinv False False False c'"
  using assms(2)
proof (cases rule: fcfs_tick_cases)
  case (1 cpu4)
  have "sepinv True False False (fcfs_arrivals (fcfs_io (snd (fcfs_check c))))"
    using fcfs_check_sepinv[OF assms(1)] 1(1) fcfs_io_sepinv fcfs_arrivals_sepinv by simp
  from remove_sepinv[OF this 1(2)] show ?thesis
    unfolding 1(3) by (rule fcfs_admit_sepinv)
next
  case 2
  have "sepinv False False False (fcfs_arrivals (fcfs_io (snd (fcfs_check c))))"
    using fcfs_check_sepinv[OF assms(1)] 2(1) fcfs_io_sepinv fcfs_arrivals_sepinv by simp
  then show ?thesis
    unfolding 2(2) by (rule fcfs_admit_sepinv)
qed

lemma srt_ready_one_more [simp]:
  "set (c_ready (srt_ready_one src p c)) = insert p (set (c_ready c))"
  "distinct (c_ready (srt_ready_one src p c)) \<longleftrightarrow> distinct (c_ready c) \<and> p \<notin> set (c_ready c)"
  "terminated_count (c_trace (srt_ready_one src p c)) = terminated_count (c_trace c)"
  "arrival_of (srt_ready_one src p c) = arrival_of c"
  by (auto simp: srt_ready_one_def Let_def)

lemma srt_ready_fold:
  "set (c_ready (fold (srt_ready_one src) ps c)) = set (c_ready c) \<union> set ps"
  "distinct (c_ready (fold (srt_ready_one src) ps c)) \<longleftrightarrow> distinct (c_ready c @ ps)"
  "terminated_count (c_trace (fold (srt_ready_one src) ps c)) = terminated_count (c_trace c)"
  "arrival_of (fold (srt_ready_one src) ps c) = arrival_of c"
proof (induction ps arbitrary: c)
  case Nil
  {
    case 1 show ?case by simp
  next
    case 2 show ?case by simp
  next
    case 3 show ?case by simp
  next
    case 4 show ?case by simp
  }
next
  case (Cons p ps)
  {
    case 1 show ?case by (simp add: Cons.IH(1))
  next
    case 2 show ?case by (auto simp: Cons.IH(2))
  next
    case 3 show ?case by (simp add: Cons.IH(3))
  next
    case 4 show ?case by (simp add: Cons.IH(4))
  }
qed

lemma srt_newly_ready_sepinv:
  assumes inv: "sepinv r s a c"
    and run: "srt_newly_ready src cands r c = Inr c'"
    and dc: "distinct cands"
    and fresh: "\<And>t'. c_ticker c \<le> t' \<Longrightarrow>
        set cands \<inter> (cur_set r (c_curr c) \<union> set (c_ready c) \<union> fst ` set (c_finished c)
          \<union> pend s' t' (c_io c)) = {}"
    and pend: "\<And>t'. c_ticker c \<le> t' \<Longrightarrow> pend s' t' (c_io c) \<subseteq> pend s (c_ticker c) (c_io c)"
    and old: "\<And>x t'. c_ticker c \<le> t' \<Longrightarrow> bnd a x (c_ticker c) \<Longrightarrow> bnd a' x t'"
    and new: "\<And>p t'. c_ticker c \<le> t' \<Longrightarrow> p \<in> set cands \<Longrightarrow> bnd a' (arrival_of c p) t'"
  shows "sepinv r s' a' c'"
  using run
proof (cases rule: srt_newly_ready_cases)
  case (preempted best others k cpu2)
  note inv' = inv[unfolded sepinv_def]
  note D = inv_onD[OF inv']
  note F = CPU_preempt_fields[OF preempted(5)]
  let ?t' = "c_ticker c + 2 * (t_cs div 2)"
  have le: "c_ticker c \<le> ?t'" by (simp add: t_cs_half)
  have rd2: "c_ready cpu2 = k # c_ready c"
    using F(3) preempted(2) by simp
  have cur: "cur_set r (c_curr c) = {k}"
    using preempted(2,3) by (simp add: cur_set_def)
  note fr = fresh[OF le]
  have "inv_on r s' a' (Some best) (c_ready c') (c_io c) (c_finished c) ?t'
          (terminated_count (c_trace c)) (arrival_of c)"
  proof (rule inv_on_newly_ready[OF inv' fr _ D(2) pend[OF le] old[OF le] new[OF le]])
    show "set (c_io c) \<subseteq> set (c_io c)" ..
    show "(Some best = c_curr c \<and> set (c_ready c') = set (c_ready c) \<union> set cands) \<or>
          (\<not> r \<and> (\<exists>k best'. c_curr c = Some k \<and> best' \<in> set cands \<and> Some best = Some best' \<and>
              set (c_ready c') = insert k (set (c_ready c) \<union> (set cands - {best'}))))"
    proof (rule disjI2, intro conjI exI)
      show "\<not> r" by (rule preempted(3))
      show "c_curr c = Some k" by (rule preempted(2))
      show "best \<in> set cands" by (simp add: preempted(1))
      show "Some best = Some best" ..
      show "set (c_ready c') = insert k (set (c_ready c) \<union> (set cands - {best}))"
        using dc by (auto simp: preempted(6) srt_ready_fold rd2 preempted(1))
    qed
    show "distinct (c_ready c')"
      using D(1) D(3) dc fr unfolding cur
      by (auto simp: preempted(6) srt_ready_fold rd2 preempted(1))
  qed
  moreover have "c_curr c' = Some best" "c_io c' = c_io c" "c_finished c' = c_finished c"
    "c_ticker c' = ?t'" "terminated_count (c_trace c') = terminated_count (c_trace c)"
    "arrival_of c' = arrival_of c"
    by (simp_all add: preempted(6) srt_ready_fold F arrival_of_preempt[OF preempted(5)])
  ultimately show ?thesis by (simp add: sepinv_def)
next
  case plain
  note inv' = inv[unfolded sepinv_def]
  note D = inv_onD[OF inv']
  have le: "c_ticker c \<le> c_ticker c" ..
  note fr = fresh[OF le]
  have "inv_on r s' a' (c_curr c) (c_ready c') (c_io c) (c_finished c) (c_ticker c)
          (terminated_count (c_trace c)) (arrival_of c)"
  proof (rule inv_on_newly_ready[OF inv' fr _ D(2) pend[OF le] old[OF le] new[OF le]])
    show "set (c_io c) \<subseteq> set (c_io c)" ..
    show "(c_curr c = c_curr c \<and> set (c_ready c') = set (c_ready c) \<union> set cands) \<or>
          (\<not> r \<and> (\<exists>k best'. c_curr c = Some k \<and> best' \<in> set cands \<and> c_curr c = Some best' \<and>
              set (c_ready c') = insert k (set (c_ready c) \<union> (set cands - {best'}))))"
      by (simp add: plain(1) srt_ready_fold)
    show "distinct (c_ready c')"
      using D(1) dc fr by (auto simp: plain(1) srt_ready_fold)
  qed
  then show ?thesis by (simp add: sepinv_def plain(1) srt_ready_fold)
qed

lemma srt_io_done_set:
  "set (srt_io_done c) = {p. (p, c_ticker c) \<in> set (c_io c)}"
  by (force simp: srt_io_done_def)

lemma srt_io_done_distinct:
  "distinct (map fst (c_io c)) \<Longrightarrow> distinct (srt_io_done c)"
  by (simp add: srt_io_done_def distinct_map_filter)

lemma srt_arrived_set:
  "set (srt_arrived c) \<subseteq> {p. arrival_of c p = c_ticker c}"
  by (auto simp: srt_arrived_def arrival_of_def)

lemma srt_arrived_distinct: "distinct (srt_arrived c)"
  by (simp add: srt_arrived_def)

lemma srt_io_sepinv:
  assumes inv: "sepinv r True True c"
    and run: "srt_newly_ready FromIO (srt_io_done c) r c = Inr c'"
  shows "sepinv r False True c'"
proof (rule srt_newly_ready_sepinv[OF inv run])
  note inv' = inv[unfolded sepinv_def]
  note D = inv_onD[OF inv']
  have K: "set (srt_io_done c) \<subseteq> {p. (p, c_ticker c) \<in> set (c_io c)}"
    by (simp add: srt_io_done_set)
  show "distinct (srt_io_done c)" by (rule srt_io_done_distinct[OF D(2)])
  fix t' assume le: "c_ticker c \<le> t'"
  show "set (srt_io_done c) \<inter> (cur_set r (c_curr c) \<union> set (c_ready c) \<union> fst ` set (c_finished c)
          \<union> pend False t' (c_io c)) = {}"
    by (rule at_now_fresh[OF inv' K _ le]) simp
  show "pend False t' (c_io c) \<subseteq> pend True (c_ticker c) (c_io c)"
    using le by (auto simp: pend_def bnd_def)
  show "bnd True x (c_ticker c) \<Longrightarrow> bnd True x t'" for x
    using le by (simp add: bnd_def)
  show "bnd True (arrival_of c p) t'" if "p \<in> set (srt_io_done c)" for p
  proof -
    have "p \<in> fst ` set (c_io c)" using that K by force
    then have "bnd True (arrival_of c p) (c_ticker c)" using D(10) by blast
    then show ?thesis using le by (simp add: bnd_def)
  qed
qed

lemma srt_arrived_sepinv:
  assumes inv: "sepinv r False True c"
    and run: "srt_newly_ready FromArrival (srt_arrived c) r c = Inr c'"
  shows "sepinv r False False c'"
proof (rule srt_newly_ready_sepinv[OF inv run])
  note inv' = inv[unfolded sepinv_def]
  show "distinct (srt_arrived c)" by (rule srt_arrived_distinct)
  fix t' assume le: "c_ticker c \<le> t'"
  show "set (srt_arrived c) \<inter> (cur_set r (c_curr c) \<union> set (c_ready c) \<union> fst ` set (c_finished c)
          \<union> pend False t' (c_io c)) = {}"
    by (rule arriving_fresh[OF inv' srt_arrived_set])
  show "pend False t' (c_io c) \<subseteq> pend False (c_ticker c) (c_io c)"
    using le by (auto simp: pend_def bnd_def)
  show "bnd True x (c_ticker c) \<Longrightarrow> bnd False x t'" for x
    using le by (simp add: bnd_def)
  show "bnd False (arrival_of c p) t'" if "p \<in> set (srt_arrived c)" for p
    using that srt_arrived_set[of c] le by (auto simp: bnd_def)
qed

lemma srt_admit_sepinv:
  assumes "sepinv False False False c"
  shows "sepinv False False False (srt_admit c)"
proof (cases "c_curr c = None \<and> c_ready c \<noteq> []")
  case False
  then show ?thesis using assms by (auto simp: srt_admit_def split: list.splits)
next
  case True
  then obtain p rest where rd: "c_ready c = p # rest" by (cases "c_ready c") auto
  have "inv_on False False False (Some p) rest (c_io c) (c_finished c) (c_ticker c + t_cs div 2)
      (terminated_count (c_trace c)) (arrival_of c)"
    using assms True rd
    by (intro inv_on_admit[where t = "c_ticker c"]) (simp_all add: sepinv_def t_cs_half)
  then show ?thesis
    using True rd by (simp add: sepinv_def srt_admit_def Let_def)
qed

lemma srt_tick_sepinv:
  assumes inv: "sepinv False True True c" and run: "srt_tick c = Inr c'"
  shows "sepinv False False False c'"
  using run
proof (cases rule: srt_tick_cases)
  case (1 cpu2 cpu3 cpu4)
  let ?r = "fst (srt_check c)"
  have 2: "sepinv ?r False True cpu2"
    by (rule srt_io_sepinv[OF srt_check_sepinv[OF inv] 1(1)])
  have 3: "sepinv ?r False False cpu3"
    by (rule srt_arrived_sepinv[OF 2 1(2)])
  have "sepinv False False False cpu4"
  proof (cases ?r)
    case True
    then show ?thesis using 1(3) remove_sepinv[OF 3] by simp
  next
    case False
    then show ?thesis using 1(3) 3 by simp
  qed
  then show ?thesis unfolding 1(4) by (rule srt_admit_sepinv)
qed

lemma init_sepinv:
  assumes "CPU_init procs = Inr cpu0"
  shows "sepinv False True True (emit (SimStarted alg (c_ticker cpu0) (get_queue cpu0)) cpu0)"
proof -
  have "c_curr cpu0 = None" "c_ready cpu0 = []" "c_io cpu0 = []" "c_finished cpu0 = []"
    "c_trace cpu0 = []"
    using assms by (auto simp: CPU_init_def Let_def split: if_splits)
  then show ?thesis
    by (simp add: sepinv_def inv_on_def cur_set_def pend_def)
qed

lemma fcfs_loop_terminated:
  assumes "fcfs_loop n c = Some (Inr r)" and "sepinv False True True c"
  shows "terminated_count (c_trace r) = n"
proof -
  have "sepinv False False False r \<and> length (c_finished r) = n"
    using assms
  proof (rule fcfs_loop_rule[where I = "sepinv False True True"])
    fix c c' :: CPU
    assume "sepinv False True True c" "fcfs_tick c = Inr c'"
    then show "sepinv False False False c'" by (rule fcfs_tick_sepinv)
  next
    fix c' :: CPU
    assume "sepinv False False False c'"
    then show "sepinv False True True (advance c')" by (rule advance_sepinv)
  qed
  then show ?thesis by (simp add: sepinv_def inv_on_def)
qed

lemma srt_loop_terminated:
  assumes "srt_loop n c = Some (Inr r)" and "sepinv False True True c"
  shows "terminated_count (c_trace r) = n"
proof -
  have "sepinv False False False r \<and> length (c_finished r) = n"
    using assms
  proof (rule srt_loop_rule[where I = "sepinv False True True"])
    fix c c' :: CPU
    assume "sepinv False True True c" "srt_tick c = Inr c'"
    then show "sepinv False False False c'" by (rule srt_tick_sepinv)
  next
    fix c' :: CPU
    assume "sepinv False False False c'"
    then show "sepinv False True True (advance c')" by (rule advance_sepinv)
  qed
  then show ?thesis by (simp add: sepinv_def inv_on_def)
qed

lemma finish_trace: "snd (finish alg c) = c_trace c @ [SimEnded alg (c_ticker c)]"
  by (simp add: finish_def Let_def emit_def)

subsection \<open>Unrolling the loops\<close>

lemma fcfs_loop_iter:
  "fcfs_loop n cpu = (case fcfs_iter k n cpu of Inl r \<Rightarrow> Some r | Inr c \<Rightarrow> fcfs_loop n c)"
proof (induction k arbitrary: cpu)
  case 0
  show ?case by simp
next
  case (Suc k)
  show ?case
    by (subst fcfs_loop.simps) (simp add: Suc split: sum.splits)
qed

lemma srt_loop_iter:
  "srt_loop n cpu = (case srt_iter k n cpu of Inl r \<Rightarrow> Some r | Inr c \<Rightarrow> srt_loop n c)"
proof (induction k arbitrary: cpu)
  case 0
  show ?case by simp
next
  case (Suc k)
  show ?case
    by (subst srt_loop.simps) (simp add: Suc split: sum.splits)
qed

subsection \<open>Runs of concrete workloads\<close>

lemma single_init: "CPU_init [Process_init ''A'' 0 4 1 0] = Inr single_start"
  by code_simp

lemma fcfs_single_loop:
  "fcfs_loop 1 (emit (SimStarted ''FCFS'' 0 ''[Q <empty>]'') single_start) = Some (Inr (single_end ''FCFS''))"
proof -
  have "fcfs_iter 5 1 (emit (SimStarted ''FCFS'' 0 ''[Q <empty>]'') single_start) = Inl (Inr (single_end ''FCFS''))"
    by code_simp
  then show ?thesis
    by (subst fcfs_loop_iter[where k=5]) (simp only: sum.case)
qed

lemma srt_single_loop:
  "srt_loop 1 (emit (SimStarted ''SRT'' 0 ''[Q <empty>]'') single_start) = Some (Inr (single_end ''SRT''))"
proof -
  have "srt_iter 5 1 (emit (SimStarted ''SRT'' 0 ''[Q <empty>]'') single_start) = Inl (Inr (single_end ''SRT''))"
    by code_simp
  then show ?thesis
    by (subst srt_loop_iter[where k=5]) (simp only: sum.case)
qed

lemma single_start_queue: "c_ticker single_start = 0" "get_queue single_start = ''[Q <empty>]''"
  by code_simp+

lemma fcfs_single_run:
  "run_fcfs 1 [Process_init ''A'' 0 4 1 0] =
     Some (Inr ((4, 0, 12, 1, 0),
       [SimStarted ''FCFS'' 0 ''[Q <empty>]'', Arrived 0 ''A'' ''[Q A]'',
        StartedUsing 4 ''A'' ''[Q <empty>]'', Terminated 8 ''A'' ''[Q <empty>]'',
        SimEnded ''FCFS'' 12]))"
proof -
  have fin: "finish ''FCFS'' (single_end ''FCFS'') = ((4, 0, 12, 1, 0),
       [SimStarted ''FCFS'' 0 ''[Q <empty>]'', Arrived 0 ''A'' ''[Q A]'',
        StartedUsing 4 ''A'' ''[Q <empty>]'', Terminated 8 ''A'' ''[Q <empty>]'',
        SimEnded ''FCFS'' 12])"
    by code_simp
  show ?thesis
    by (simp only: run_fcfs_def single_init sum.case single_start_queue fcfs_single_loop
          option.case fin)
qed

lemma srt_single_run:
  "run_srt 1 [Process_init ''A'' 0 4 1 0] =
     Some (Inr ((4, 0, 12, 1, 0),
       [SimStarted ''SRT'' 0 ''[Q <empty>]'', Arrived 0 ''A'' ''[Q A]'',
        StartedUsing 4 ''A'' ''[Q <empty>]'', Terminated 8 ''A'' ''[Q <empty>]'',
        SimEnded ''SRT'' 12]))"
proof -
  have fin: "finish ''SRT'' (single_end ''SRT'') = ((4, 0, 12, 1, 0),
       [SimStarted ''SRT'' 0 ''[Q <empty>]'', Arrived 0 ''A'' ''[Q A]'',
        StartedUsing 4 ''A'' ''[Q <empty>]'', Terminated 8 ''A'' ''[Q <empty>]'',
        SimEnded ''SRT'' 12])"
    by code_simp
  show ?thesis
    by (simp only: run_srt_def single_init sum.case single_start_queue srt_single_loop
          option.case fin)
qed

lemma two_bursts_run:
  "main_fcfs two_bursts = Some (Inr ((4, 0, 12, 2, 0), two_bursts_trace))"
proof -
  have init: "CPU_init two_bursts = Inr two_bursts_start"
    by code_simp
  have q: "c_ticker two_bursts_start = 0" "get_queue two_bursts_start = ''[Q <empty>]''"
    by code_simp+
  have iter: "fcfs_iter 10 (length two_bursts)
      (emit (SimStarted ''FCFS'' 0 ''[Q <empty>]'') two_bursts_start) = Inl (Inr two_bursts_end)"
    by code_simp
  have loop: "fcfs_loop (length two_bursts)
      (emit (SimStarted ''FCFS'' 0 ''[Q <empty>]'') two_bursts_start) = Some (Inr two_bursts_end)"
    by (subst fcfs_loop_iter[where k=10]) (simp only: iter sum.case)
  have fin: "finish ''FCFS'' two_bursts_end = ((4, 0, 12, 2, 0), two_bursts_trace)"
    by code_simp
  show ?thesis
    by (simp only: main_fcfs_def run_fcfs_def init sum.case q loop option.case fin)
qed



section \<open>The claims\<close>

subsection \<open>C1: round robin\<close>

lemma run_rr_cases:
  "run_rr procs = Inl ZeroDivisionError \<or>
   (\<exists>b. run_rr procs = Inr ((b, 0, 0, 0, 0), [SimStarted ''RR'' 0 ''[Q <empty>]'', SimEnded ''RR'' 0]))"
  by (simp add: run_rr_def CPU_init_def Let_def emit_def get_queue_def)

text \<open>
  Claim C1 says that \<^verbatim>\<open>run_rr\<close> simulates quantum-based scheduling and that its
  five-tuple reflects the context switches and preemptions of that simulation. The
  function builds the CPU, prints the two framing lines and returns: for the workload
  \<^verbatim>\<open>A|0|100|1|0\<close>, whose single burst of 100 ms exceeds the quantum of 80 ms, it
  returns 0 context switches and 0 preemptions and reports the end at 0 ms.
\<close>

theorem run_rr_is_a_stub:
  "run_rr [Process_init ''A'' 0 100 1 0] =
     Inr ((100, 0, 0, 0, 0), [SimStarted ''RR'' 0 ''[Q <empty>]'', SimEnded ''RR'' 0])"
  by code_simp

subsection \<open>C4: the preempt operation\<close>

text \<open>
  Claim C4: a call of \<^verbatim>\<open>CPU.preempt\<close> with a process in the running slot puts that
  process at the front of the ready queue with its ready time set to the clock (as it
  stands after the first half of the context switch), installs the incoming process as
  running, advances the clock by two halves of \<open>t_cs\<close>, that is by \<open>t_cs\<close>, and adds
  exactly 1 to the context-switch counter and 1 to the preemption counter.
\<close>

theorem preempt_effect:
  assumes "c_curr cpu = Some c" and "c < length (c_procs cpu)"
  shows "\<exists>cpu'. CPU_preempt cpu p = Inr cpu' \<and>
           c_ready cpu' = c # c_ready cpu \<and>
           p_readied (proc cpu' c) = c_ticker cpu + t_cs div 2 \<and>
           c_curr cpu' = Some p \<and>
           c_ticker cpu' = c_ticker cpu + t_cs div 2 + t_cs div 2 \<and>
           c_ticker cpu' = c_ticker cpu + t_cs \<and>
           c_context cpu' = c_context cpu + 1 \<and>
           c_preempt cpu' = c_preempt cpu + 1"
  using assms
  by (simp add: CPU_preempt_def Let_def upd_proc_def proc_def t_cs_def nth_list_update)

theorem preempt_effect_witness:
  "c_curr demo_cpu = Some 0 \<and> 0 < length (c_procs demo_cpu) \<and>
   (\<exists>cpu'. CPU_preempt demo_cpu 1 = Inr cpu' \<and>
           c_ready cpu' = [0] \<and>
           p_readied (proc cpu' 0) = 11 \<and>
           c_curr cpu' = Some 1 \<and>
           c_ticker cpu' = 15 \<and>
           c_context cpu' = 2 \<and>
           c_preempt cpu' = 1)"
proof -
  have h: "c_curr demo_cpu = Some 0" "0 < length (c_procs demo_cpu)"
    by (simp_all add: demo_cpu_def)
  from preempt_effect[OF h, of 1] show ?thesis
    using h by (auto simp: demo_cpu_def t_cs_def)
qed

subsection \<open>C7: admission into an occupied running slot\<close>

text \<open>
  Claim C7 as stated (\<^verbatim>\<open>CPU.add\<close> fails when a process is running) does not hold:
  with process 0 running, admitting process 1 returns normally, process 1 is running
  and process 0 is in no container.
\<close>

theorem add_replaces_running_counterexample:
  "c_curr demo_cpu = Some 0 \<and> c_curr (CPU_add demo_cpu 1) = Some 1 \<and>
   c_ready (CPU_add demo_cpu 1) = [] \<and> c_io (CPU_add demo_cpu 1) = [] \<and>
   c_finished (CPU_add demo_cpu 1) = []"
  by (simp add: demo_cpu_def)

text \<open>
  Claim C7, amended: \<^verbatim>\<open>CPU.add\<close> makes no check of the running slot; it always
  installs the given process as running, leaves the ready queue alone, charges half
  a context switch and counts one context switch. The loops of FCFS and SRT admit a
  process only when the running slot is empty.
\<close>

theorem add_unconditional:
  "c_curr (CPU_add cpu p) = Some p \<and>
   c_ready (CPU_add cpu p) = c_ready cpu \<and>
   c_ticker (CPU_add cpu p) = c_ticker cpu + t_cs div 2 \<and>
   c_context (CPU_add cpu p) = c_context cpu + 1 \<and>
   (c_curr cpu \<noteq> None \<longrightarrow> fcfs_admit cpu = cpu \<and> srt_admit cpu = cpu)"
  by (simp add: fcfs_admit_def srt_admit_def)

theorem add_unconditional_witness:
  "c_curr demo_cpu \<noteq> None \<and> c_curr (CPU_add demo_cpu 1) = Some 1 \<and>
   fcfs_admit demo_cpu = demo_cpu \<and> srt_admit demo_cpu = demo_cpu"
proof -
  have h: "c_curr demo_cpu \<noteq> None" by (simp add: demo_cpu_def)
  from add_unconditional[of demo_cpu 1] h show ?thesis by blast
qed

subsection \<open>C8: one process under FCFS\<close>

text \<open>
  Claim C8: for the workload \<^verbatim>\<open>A|0|4|1|0\<close> and \<open>t_cs = 8\<close> the FCFS run returns
  average wait 0, average turnaround 12, 1 context switch and 0 preemptions.
\<close>

theorem fcfs_single_process_scenario:
  "main_fcfs [Process_init ''A'' 0 4 1 0] =
     Some (Inr ((4, 0, 12, 1, 0),
       [SimStarted ''FCFS'' 0 ''[Q <empty>]'', Arrived 0 ''A'' ''[Q A]'',
        StartedUsing 4 ''A'' ''[Q <empty>]'', Terminated 8 ''A'' ''[Q <empty>]'',
        SimEnded ''FCFS'' 12]))"
  using fcfs_single_run by (simp add: main_fcfs_def)

subsection \<open>C9: FCFS never preempts\<close>

lemma fcfs_check_running:
  "c_curr cpu = Some c \<Longrightarrow> 0 < p_remaining (proc cpu c) \<Longrightarrow> \<not> fst (fcfs_check cpu)"
  by (simp add: fcfs_check_def)

lemma fcfs_loop_preempt:
  assumes "fcfs_loop n cpu = Some (Inr r)"
  shows "c_preempt r = c_preempt cpu"
proof -
  have "c_preempt r = c_preempt cpu \<and> length (c_finished r) = n"
    using assms
  proof (rule fcfs_loop_rule[where I = "\<lambda>c. c_preempt c = c_preempt cpu"])
    show "c_preempt cpu = c_preempt cpu" ..
  next
    fix c c' :: CPU
    assume "c_preempt c = c_preempt cpu" "fcfs_tick c = Inr c'"
    then show "c_preempt c' = c_preempt cpu" using fcfs_tick_preempt by simp
  next
    fix c' :: CPU
    assume "c_preempt c' = c_preempt cpu"
    then show "c_preempt (advance c') = c_preempt cpu" by (simp add: advance_def)
  qed
  then show ?thesis ..
qed

text \<open>
  Claim C9: a pass of the FCFS loop never changes the preemption counter; a running
  process whose burst has time left is still running after the pass; and the
  preemption count of the five-tuple returned by \<^verbatim>\<open>run_fcfs\<close> is 0.
\<close>

theorem fcfs_never_preempts:
  "(fcfs_tick cpu = Inr cpu' \<longrightarrow> c_preempt cpu' = c_preempt cpu) \<and>
   (fcfs_tick cpu = Inr cpu' \<longrightarrow> c_curr cpu = Some c \<longrightarrow> 0 < p_remaining (proc cpu c) \<longrightarrow>
      c_curr cpu' = Some c) \<and>
   (run_fcfs n procs = Some (Inr ((b, w, t, cs, pre), tr)) \<longrightarrow> pre = 0)"
proof (intro conjI impI)
  assume "fcfs_tick cpu = Inr cpu'"
  then show "c_preempt cpu' = c_preempt cpu" by (rule fcfs_tick_preempt)
next
  assume t: "fcfs_tick cpu = Inr cpu'" and c: "c_curr cpu = Some c"
    and r: "0 < p_remaining (proc cpu c)"
  from t show "c_curr cpu' = Some c"
  proof (cases rule: fcfs_tick_cases)
    case (1 cpu4)
    then show ?thesis using fcfs_check_running[OF c r] by simp
  next
    case 2
    then show ?thesis using c by (simp add: fcfs_admit_def)
  qed
next
  assume run: "run_fcfs n procs = Some (Inr ((b, w, t, cs, pre), tr))"
  then obtain cpu0 r where init: "CPU_init procs = Inr cpu0"
    and loop: "fcfs_loop n (emit (SimStarted ''FCFS'' (c_ticker cpu0) (get_queue cpu0)) cpu0) = Some (Inr r)"
    and fin: "finish ''FCFS'' r = ((b, w, t, cs, pre), tr)"
    by (auto simp: run_fcfs_def split: sum.splits option.splits)
  have "c_preempt cpu0 = 0"
    using init by (auto simp: CPU_init_def Let_def split: if_splits)
  then have "c_preempt r = 0"
    using fcfs_loop_preempt[OF loop] by simp
  then show "pre = 0"
    using fin by (simp add: finish_def Let_def emit_def)
qed

theorem fcfs_never_preempts_witness:
  "(\<exists>cpu'. fcfs_tick demo_cpu = Inr cpu' \<and> c_curr demo_cpu = Some 0 \<and>
       0 < p_remaining (proc demo_cpu 0) \<and> c_preempt cpu' = c_preempt demo_cpu \<and>
       c_curr cpu' = Some 0) \<and>
   (\<exists>b w t cs pre tr. run_fcfs 1 [Process_init ''A'' 0 4 1 0] = Some (Inr ((b, w, t, cs, pre), tr))
       \<and> pre = 0)"
proof -
  obtain cpu' where t: "fcfs_tick demo_cpu = Inr cpu'"
    using fcfs_tick_ok by blast
  have c: "c_curr demo_cpu = Some 0" and r: "0 < p_remaining (proc demo_cpu 0)"
    by (simp_all add: demo_cpu_def proc_def Process_init_def)
  note run = fcfs_single_run
  from fcfs_never_preempts[of demo_cpu cpu' 0 1 "[Process_init ''A'' 0 4 1 0]" 4 0 12 1 0] t c r run
  have "c_preempt cpu' = c_preempt demo_cpu \<and> c_curr cpu' = Some 0" by blast
  with t c r run show ?thesis by blast
qed

subsection \<open>C10: the clock is monotone\<close>

lemma fcfs_loop_ticker:
  assumes "fcfs_loop n cpu = Some (Inr r)"
  shows "c_ticker cpu \<le> c_ticker r"
proof -
  have "c_ticker cpu \<le> c_ticker r \<and> length (c_finished r) = n"
    using assms
  proof (rule fcfs_loop_rule[where I = "\<lambda>c. c_ticker cpu \<le> c_ticker c"])
    show "c_ticker cpu \<le> c_ticker cpu" ..
  next
    fix c c' :: CPU
    assume "c_ticker cpu \<le> c_ticker c" "fcfs_tick c = Inr c'"
    then show "c_ticker cpu \<le> c_ticker c'" using fcfs_tick_ticker[of c c'] by simp
  next
    fix c' :: CPU
    assume "c_ticker cpu \<le> c_ticker c'"
    then show "c_ticker cpu \<le> c_ticker (advance c')" by (simp add: advance_def)
  qed
  then show ?thesis ..
qed

lemma srt_loop_ticker:
  assumes "srt_loop n cpu = Some (Inr r)"
  shows "c_ticker cpu \<le> c_ticker r"
proof -
  have "c_ticker cpu \<le> c_ticker r \<and> length (c_finished r) = n"
    using assms
  proof (rule srt_loop_rule[where I = "\<lambda>c. c_ticker cpu \<le> c_ticker c"])
    show "c_ticker cpu \<le> c_ticker cpu" ..
  next
    fix c c' :: CPU
    assume "c_ticker cpu \<le> c_ticker c" "srt_tick c = Inr c'"
    then show "c_ticker cpu \<le> c_ticker c'" using srt_tick_ticker[of c c'] by simp
  next
    fix c' :: CPU
    assume "c_ticker cpu \<le> c_ticker c'"
    then show "c_ticker cpu \<le> c_ticker (advance c')" by (simp add: advance_def)
  qed
  then show ?thesis ..
qed

text \<open>
  Claim C10: the clock never goes back. Each operation of the CPU (admit, enqueue,
  retire, preempt), the advance by one tick, a whole pass of the FCFS or SRT loop and
  a whole run of either loop leave the clock greater than or equal to its previous
  value, from every state.
\<close>

theorem clock_monotone:
  "c_ticker cpu \<le> c_ticker (CPU_add cpu p) \<and>
   c_ticker cpu \<le> c_ticker (CPU_ready cpu p) \<and>
   c_ticker cpu \<le> c_ticker (advance cpu) \<and>
   (CPU_remove cpu = Inr r1 \<longrightarrow> c_ticker cpu \<le> c_ticker r1) \<and>
   (CPU_preempt cpu p = Inr r2 \<longrightarrow> c_ticker cpu \<le> c_ticker r2) \<and>
   (fcfs_tick cpu = Inr r3 \<longrightarrow> c_ticker cpu \<le> c_ticker r3) \<and>
   (srt_tick cpu = Inr r4 \<longrightarrow> c_ticker cpu \<le> c_ticker r4) \<and>
   (fcfs_loop n cpu = Some (Inr r5) \<longrightarrow> c_ticker cpu \<le> c_ticker r5) \<and>
   (srt_loop n cpu = Some (Inr r6) \<longrightarrow> c_ticker cpu \<le> c_ticker r6)"
proof (intro conjI impI)
  show "c_ticker cpu \<le> c_ticker (CPU_add cpu p)" by (simp add: t_cs_half)
  show "c_ticker cpu \<le> c_ticker (CPU_ready cpu p)" by simp
  show "c_ticker cpu \<le> c_ticker (advance cpu)" by (simp add: advance_def)
next
  assume "CPU_remove cpu = Inr r1"
  then show "c_ticker cpu \<le> c_ticker r1" by (simp add: CPU_remove_fields t_cs_half)
next
  assume "CPU_preempt cpu p = Inr r2"
  then show "c_ticker cpu \<le> c_ticker r2" by (simp add: CPU_preempt_fields t_cs_half)
next
  assume "fcfs_tick cpu = Inr r3"
  then show "c_ticker cpu \<le> c_ticker r3" by (rule fcfs_tick_ticker)
next
  assume "srt_tick cpu = Inr r4"
  then show "c_ticker cpu \<le> c_ticker r4" by (rule srt_tick_ticker)
next
  assume "fcfs_loop n cpu = Some (Inr r5)"
  then show "c_ticker cpu \<le> c_ticker r5" by (rule fcfs_loop_ticker)
next
  assume "srt_loop n cpu = Some (Inr r6)"
  then show "c_ticker cpu \<le> c_ticker r6" by (rule srt_loop_ticker)
qed

lemma demo_remove:
  "CPU_remove demo_cpu = Inr (demo_cpu\<lparr>c_ticker := 11, c_total_turnaround := 11, c_curr := None\<rparr>)"
  by (simp add: CPU_remove_def demo_cpu_def Let_def t_cs_def proc_def Process_init_def)

theorem clock_monotone_witness:
  "(\<exists>r1. CPU_remove demo_cpu = Inr r1 \<and> c_ticker demo_cpu \<le> c_ticker r1) \<and>
   (\<exists>r2. CPU_preempt demo_cpu 1 = Inr r2 \<and> c_ticker demo_cpu \<le> c_ticker r2) \<and>
   (\<exists>r3. fcfs_tick demo_cpu = Inr r3 \<and> c_ticker demo_cpu \<le> c_ticker r3) \<and>
   (\<exists>r4. srt_tick demo_cpu = Inr r4 \<and> c_ticker demo_cpu \<le> c_ticker r4) \<and>
   (\<exists>r5. fcfs_loop 1 (emit (SimStarted ''FCFS'' 0 ''[Q <empty>]'') single_start) = Some (Inr r5) \<and>
      c_ticker (emit (SimStarted ''FCFS'' 0 ''[Q <empty>]'') single_start) \<le> c_ticker r5) \<and>
   (\<exists>r6. srt_loop 1 (emit (SimStarted ''SRT'' 0 ''[Q <empty>]'') single_start) = Some (Inr r6) \<and>
      c_ticker (emit (SimStarted ''SRT'' 0 ''[Q <empty>]'') single_start) \<le> c_ticker r6)"
proof -
  obtain r1 where r1: "CPU_remove demo_cpu = Inr r1"
    using demo_remove by blast
  obtain r2 where r2: "CPU_preempt demo_cpu 1 = Inr r2"
    using CPU_preempt_ok[of demo_cpu 0 1] by (auto simp: demo_cpu_def)
  obtain r3 where r3: "fcfs_tick demo_cpu = Inr r3"
    using fcfs_tick_ok by blast
  obtain r4 where r4: "srt_tick demo_cpu = Inr r4"
    using srt_tick_ok by blast
  have a: "c_ticker demo_cpu \<le> c_ticker r1 \<and> c_ticker demo_cpu \<le> c_ticker r2 \<and>
        c_ticker demo_cpu \<le> c_ticker r3 \<and> c_ticker demo_cpu \<le> c_ticker r4"
    using clock_monotone[of demo_cpu 1 r1 r2 r3 r4] r1 r2 r3 r4 by blast
  have b: "c_ticker (emit (SimStarted ''FCFS'' 0 ''[Q <empty>]'') single_start)
             \<le> c_ticker (single_end ''FCFS'')"
    using clock_monotone[of "emit (SimStarted ''FCFS'' 0 ''[Q <empty>]'') single_start" _ _ _ _ _ 1 "single_end ''FCFS''"]
      fcfs_single_loop by blast
  have c: "c_ticker (emit (SimStarted ''SRT'' 0 ''[Q <empty>]'') single_start)
             \<le> c_ticker (single_end ''SRT'')"
    using clock_monotone[of "emit (SimStarted ''SRT'' 0 ''[Q <empty>]'') single_start" _ _ _ _ _ 1 _ "single_end ''SRT''"]
      srt_single_loop by blast
  show ?thesis
    using a b c r1 r2 r3 r4 fcfs_single_loop srt_single_loop by blast
qed

subsection \<open>C5: termination of the loop\<close>

lemma missed_io_tick:
  assumes "missed_io c"
  shows "fcfs_tick c = Inr c"
proof -
  have 1: "fcfs_check c = (False, c)"
    using assms by (simp add: fcfs_check_def missed_io_def)
  have 2: "fcfs_io c = c"
    using assms by (simp add: fcfs_io_def fcfs_io_done_def missed_io_def)
  have 3: "fcfs_arrivals c = c"
    using assms by (simp add: fcfs_arrivals_def fcfs_arrive_one_def missed_io_def)
  have 4: "fcfs_admit c = c"
    using assms by (simp add: fcfs_admit_def missed_io_def)
  show ?thesis by (simp add: fcfs_tick_def 1 2 3 4)
qed

lemma missed_io_forever:
  assumes "missed_io c"
  shows "fcfs_loop 1 c = None"
  using assms
proof (rule fcfs_loop_diverges[where I = missed_io])
  fix c assume m: "missed_io c"
  have "fcfs_tick c = Inr c" by (rule missed_io_tick[OF m])
  moreover have "length (c_finished c) \<noteq> 1" using m by (simp add: missed_io_def)
  moreover have "missed_io (advance c)"
    using m by (simp add: missed_io_def advance_def proc_def)
  ultimately show "\<exists>c'. fcfs_tick c = Inr c' \<and> length (c_finished c') \<noteq> 1 \<and> missed_io (advance c')"
    by blast
qed

text \<open>
  Claim C5 says that the loop ends for every workload with non-negative times and
  positive burst length and count. For \<^verbatim>\<open>A|0|4|2|0\<close> the FCFS loop does not end: the
  first burst completes at 8 ms and the I/O completion is set to 8 + 0 + 4 = 12 ms;
  retiring the process moves the clock to 12 and the loop then adds 1, so the next pass
  runs at 13 and the test \<^verbatim>\<open>tick == cpu._ticker\<close> is never true. From then on nothing
  is running, ready or finished, and every pass only advances the clock.
\<close>

theorem fcfs_zero_io_never_ends:
  "main_fcfs [Process_init ''A'' 0 4 2 0] = None"
proof -
  have init: "CPU_init [Process_init ''A'' 0 4 2 0] = Inr no_io_start"
    by code_simp
  have q: "c_ticker no_io_start = 0" "get_queue no_io_start = ''[Q <empty>]''"
    by code_simp+
  have iter: "fcfs_iter 5 (length [Process_init ''A'' 0 4 2 0])
      (emit (SimStarted ''FCFS'' 0 ''[Q <empty>]'') no_io_start) = Inr no_io_stuck"
    by code_simp
  have stuck: "missed_io no_io_stuck"
    by (simp add: missed_io_def no_io_stuck_def proc_def)
  have "fcfs_loop (length [Process_init ''A'' 0 4 2 0])
      (emit (SimStarted ''FCFS'' 0 ''[Q <empty>]'') no_io_start) =
        fcfs_loop (length [Process_init ''A'' 0 4 2 0]) no_io_stuck"
    by (subst fcfs_loop_iter[where k=5]) (simp only: iter sum.case)
  also have "\<dots> = None"
    using missed_io_forever[OF stuck] by simp
  finally have loop: "fcfs_loop (length [Process_init ''A'' 0 4 2 0])
      (emit (SimStarted ''FCFS'' 0 ''[Q <empty>]'') no_io_start) = None" .
  show ?thesis
    by (simp only: main_fcfs_def run_fcfs_def init sum.case q loop option.case)
qed

subsection \<open>C6: the number of terminated events\<close>

text \<open>
  Claim C6 as stated (the number of terminated events is the sum of the burst counts)
  does not hold: \<^verbatim>\<open>A|0|4|2|1\<close> has burst count 2 and its FCFS run prints one
  terminated line; the first burst ends with the line for a completed burst.
\<close>

theorem terminated_vs_burst_count_counterexample:
  "main_fcfs two_bursts = Some (Inr ((4, 0, 12, 2, 0), two_bursts_trace)) \<and>
   terminated_count two_bursts_trace = 1 \<and>
   sum_list (map p_num two_bursts) = 2"
proof (intro conjI)
  show "main_fcfs two_bursts = Some (Inr ((4, 0, 12, 2, 0), two_bursts_trace))"
    by (rule two_bursts_run)
  show "terminated_count two_bursts_trace = 1"
    by (simp add: two_bursts_trace_def)
  show "sum_list (map p_num two_bursts) = 2"
    by (simp add: two_bursts_def Process_init_def)
qed

text \<open>
  Claim C6, amended: whenever a run of FCFS or SRT returns, the number of terminated
  events in its trace is the number of processes of the workload, one for each process.
\<close>

theorem terminated_once_per_process:
  "(main_fcfs procs = Some (Inr (res, tr)) \<longrightarrow> terminated_count tr = length procs) \<and>
   (main_srt procs = Some (Inr (res', tr')) \<longrightarrow> terminated_count tr' = length procs)"
proof (intro conjI impI)
  assume "main_fcfs procs = Some (Inr (res, tr))"
  then obtain cpu0 r where init: "CPU_init procs = Inr cpu0"
    and loop: "fcfs_loop (length procs)
        (emit (SimStarted ''FCFS'' (c_ticker cpu0) (get_queue cpu0)) cpu0) = Some (Inr r)"
    and fin: "finish ''FCFS'' r = (res, tr)"
    by (auto simp: main_fcfs_def run_fcfs_def split: sum.splits option.splits)
  have "terminated_count (c_trace r) = length procs"
    by (rule fcfs_loop_terminated[OF loop init_sepinv[OF init]])
  moreover have "tr = c_trace r @ [SimEnded ''FCFS'' (c_ticker r)]"
    using finish_trace[of "''FCFS''" r] fin by simp
  ultimately show "terminated_count tr = length procs" by simp
next
  assume "main_srt procs = Some (Inr (res', tr'))"
  then obtain cpu0 r where init: "CPU_init procs = Inr cpu0"
    and loop: "srt_loop (length procs)
        (emit (SimStarted ''SRT'' (c_ticker cpu0) (get_queue cpu0)) cpu0) = Some (Inr r)"
    and fin: "finish ''SRT'' r = (res', tr')"
    by (auto simp: main_srt_def run_srt_def split: sum.splits option.splits)
  have "terminated_count (c_trace r) = length procs"
    by (rule srt_loop_terminated[OF loop init_sepinv[OF init]])
  moreover have "tr' = c_trace r @ [SimEnded ''SRT'' (c_ticker r)]"
    using finish_trace[of "''SRT''" r] fin by simp
  ultimately show "terminated_count tr' = length procs" by simp
qed

theorem terminated_once_per_process_witness:
  "main_fcfs two_bursts = Some (Inr ((4, 0, 12, 2, 0), two_bursts_trace)) \<and>
   terminated_count two_bursts_trace = length two_bursts \<and>
   main_srt [Process_init ''A'' 0 4 1 0] =
     Some (Inr ((4, 0, 12, 1, 0),
       [SimStarted ''SRT'' 0 ''[Q <empty>]'', Arrived 0 ''A'' ''[Q A]'',
        StartedUsing 4 ''A'' ''[Q <empty>]'', Terminated 8 ''A'' ''[Q <empty>]'',
        SimEnded ''SRT'' 12])) \<and>
   terminated_count
       [SimStarted ''SRT'' 0 ''[Q <empty>]'', Arrived 0 ''A'' ''[Q A]'',
        StartedUsing 4 ''A'' ''[Q <empty>]'', Terminated 8 ''A'' ''[Q <empty>]'',
        SimEnded ''SRT'' 12] = length [Process_init ''A'' 0 4 1 0]"
proof -
  have f: "main_fcfs two_bursts = Some (Inr ((4, 0, 12, 2, 0), two_bursts_trace))"
    by (rule two_bursts_run)
  have s: "main_srt [Process_init ''A'' 0 4 1 0] =
     Some (Inr ((4, 0, 12, 1, 0),
       [SimStarted ''SRT'' 0 ''[Q <empty>]'', Arrived 0 ''A'' ''[Q A]'',
        StartedUsing 4 ''A'' ''[Q <empty>]'', Terminated 8 ''A'' ''[Q <empty>]'',
        SimEnded ''SRT'' 12]))"
    using srt_single_run by (simp add: main_srt_def)
  from terminated_once_per_process[of two_bursts "(4, 0, 12, 2, 0)" two_bursts_trace] f
  have 1: "terminated_count two_bursts_trace = length two_bursts" by blast
  from terminated_once_per_process[of "[Process_init ''A'' 0 4 1 0]" _ _ "(4, 0, 12, 1, 0)"] s
  have 2: "terminated_count
       [SimStarted ''SRT'' 0 ''[Q <empty>]'', Arrived 0 ''A'' ''[Q A]'',
        StartedUsing 4 ''A'' ''[Q <empty>]'', Terminated 8 ''A'' ''[Q <empty>]'',
        SimEnded ''SRT'' 12] = length [Process_init ''A'' 0 4 1 0]" by blast
  show ?thesis using f s 1 2 by blast
qed

subsection \<open>C2: SRT preempts only for a strictly shorter candidate\<close>

lemma srt_newly_ready_effect:
  assumes "srt_newly_ready src cands removed cpu = Inr cpu'"
  obtains (preempted) best others c where "cands = best # others"
      and "c_curr cpu = Some c" and "\<not> removed"
      and "p_remaining (proc cpu best) < p_remaining (proc cpu c)"
      and "c_preempt cpu' = c_preempt cpu + 1" and "c_curr cpu' = Some best"
      and "set (c_ready cpu') = insert c (set (c_ready cpu) \<union> set others)"
    | (plain) "c_preempt cpu' = c_preempt cpu" and "c_curr cpu' = c_curr cpu"
      and "set (c_ready cpu') = set (c_ready cpu) \<union> set cands"
      and "cpu' = fold (srt_ready_one src) cands cpu"
      and "cands = [] \<or> c_curr cpu = None \<or> removed \<or>
           (\<exists>c. c_curr cpu = Some c \<and> \<not> p_remaining (proc cpu (hd cands)) < p_remaining (proc cpu c))"
  using assms
proof (cases rule: srt_newly_ready_cases)
  case (preempted best others c cpu2)
  note F = CPU_preempt_fields[OF preempted(5)]
  have "c_ready cpu2 = c # c_ready cpu" using F(3) preempted(2) by simp
  then have "set (c_ready cpu') = insert c (set (c_ready cpu) \<union> set others)"
    by (simp add: preempted(6) srt_ready_fold)
  moreover have "c_preempt cpu' = c_preempt cpu + 1" "c_curr cpu' = Some best"
    by (simp_all add: preempted(6) F)
  ultimately show ?thesis
    using preempted(1-4) by (intro that(1))
next
  case plain
  have "set (c_ready cpu') = set (c_ready cpu) \<union> set cands"
    by (simp add: plain(1) srt_ready_fold)
  moreover have "c_preempt cpu' = c_preempt cpu" "c_curr cpu' = c_curr cpu"
    by (simp_all add: plain(1))
  ultimately show ?thesis
    using plain by (intro that(2))
qed

lemma demo_preempted:
  "srt_newly_ready FromArrival [1] False demo_cpu =
     Inr (demo_cpu\<lparr>
       c_procs := [(Process_init ''A'' 0 10 1 0)\<lparr>p_readied := 11\<rparr>,
                   (Process_init ''B'' 3 2 1 0)\<lparr>p_remaining := 1\<rparr>],
       c_ticker := 15, c_curr := Some 1, c_ready := [0], c_context := 2, c_preempt := 1,
       c_trace := [ArrivalWillPreempt 7 ''B'' ''A'' ''[Q <empty>]'', StartedUsing 15 ''B'' ''[Q A]'']\<rparr>)"
  by code_simp

lemma tie_not_preempted:
  "srt_newly_ready FromArrival [1] False tie_cpu =
     Inr (tie_cpu\<lparr>
       c_procs := [Process_init ''A'' 0 2 1 0,
                   (Process_init ''B'' 7 2 1 0)\<lparr>p_readied := 7, p_last_arrival := 7\<rparr>],
       c_ready := [1], c_trace := [Arrived 7 ''B'' ''[Q B]'']\<rparr>)"
  by code_simp

text \<open>
  Claim C2: in either group of newly ready processes (I/O completions, arrivals) the
  preemption counter changes only if a process is running and the first candidate has
  strictly less remaining time than it, and then that candidate runs; if no candidate
  has less remaining time than the running process (in particular when the times are
  equal) the counter and the running process stay as they are. A pass of the SRT loop
  changes the preemption counter nowhere but in these two groups. The remaining time
  of the running process is the field \<^verbatim>\<open>_remaining\<close> as the pass has just decremented
  it.
\<close>

theorem srt_preempts_only_when_strictly_shorter:
  "(srt_newly_ready src cands removed cpu = Inr cpu' \<longrightarrow> c_preempt cpu' \<noteq> c_preempt cpu \<longrightarrow>
      (\<exists>c best others. c_curr cpu = Some c \<and> cands = best # others \<and>
          p_remaining (proc cpu best) < p_remaining (proc cpu c) \<and>
          c_curr cpu' = Some best \<and> c_preempt cpu' = c_preempt cpu + 1)) \<and>
   (srt_newly_ready src cands removed cpu = Inr cpu' \<longrightarrow> c_curr cpu = Some c \<longrightarrow>
      (\<forall>p \<in> set cands. p_remaining (proc cpu c) \<le> p_remaining (proc cpu p)) \<longrightarrow>
      c_preempt cpu' = c_preempt cpu \<and> c_curr cpu' = Some c) \<and>
   (srt_tick cpu = Inr cpu'' \<longrightarrow>
      (\<exists>cpu2 cpu3.
          srt_newly_ready FromIO (srt_io_done (snd (srt_check cpu))) (fst (srt_check cpu))
            (snd (srt_check cpu)) = Inr cpu2 \<and>
          srt_newly_ready FromArrival (srt_arrived cpu2) (fst (srt_check cpu)) cpu2 = Inr cpu3 \<and>
          c_preempt (snd (srt_check cpu)) = c_preempt cpu \<and>
          c_preempt cpu'' = c_preempt cpu3))"
  (is "?only \<and> ?tie \<and> ?pass")
proof -
  have only: ?only
  proof (intro impI)
    assume run: "srt_newly_ready src cands removed cpu = Inr cpu'"
      and ne: "c_preempt cpu' \<noteq> c_preempt cpu"
    from run show "\<exists>c best others. c_curr cpu = Some c \<and> cands = best # others \<and>
          p_remaining (proc cpu best) < p_remaining (proc cpu c) \<and>
          c_curr cpu' = Some best \<and> c_preempt cpu' = c_preempt cpu + 1"
    proof (cases rule: srt_newly_ready_effect)
      case (preempted best others c)
      then show ?thesis by blast
    next
      case plain
      then show ?thesis using ne by simp
    qed
  qed
  have tie: ?tie
  proof (intro impI)
    assume run: "srt_newly_ready src cands removed cpu = Inr cpu'"
      and c: "c_curr cpu = Some c"
      and ge: "\<forall>p \<in> set cands. p_remaining (proc cpu c) \<le> p_remaining (proc cpu p)"
    from run show "c_preempt cpu' = c_preempt cpu \<and> c_curr cpu' = Some c"
    proof (cases rule: srt_newly_ready_effect)
      case (preempted best others c')
      then have "p_remaining (proc cpu c) \<le> p_remaining (proc cpu best)"
        using ge by simp
      then show ?thesis using preempted(2,4) c by simp
    next
      case plain
      then show ?thesis using c by simp
    qed
  qed
  have pass: ?pass
  proof (intro impI)
    assume "srt_tick cpu = Inr cpu''"
    then show "\<exists>cpu2 cpu3.
          srt_newly_ready FromIO (srt_io_done (snd (srt_check cpu))) (fst (srt_check cpu))
            (snd (srt_check cpu)) = Inr cpu2 \<and>
          srt_newly_ready FromArrival (srt_arrived cpu2) (fst (srt_check cpu)) cpu2 = Inr cpu3 \<and>
          c_preempt (snd (srt_check cpu)) = c_preempt cpu \<and>
          c_preempt cpu'' = c_preempt cpu3"
    proof (cases rule: srt_tick_cases)
      case (1 cpu2 cpu3 cpu4)
      have "c_preempt cpu4 = c_preempt cpu3"
        using 1(3) by (auto simp: CPU_remove_fields split: if_splits)
      then have "c_preempt cpu'' = c_preempt cpu3" by (simp add: 1(4))
      then show ?thesis using 1(1,2) by auto
    qed
  qed
  show ?thesis by (rule conjI[OF only conjI[OF tie pass]])
qed

theorem srt_preempts_only_when_strictly_shorter_witness:
  "(\<exists>cpu'. srt_newly_ready FromArrival [1] False demo_cpu = Inr cpu' \<and>
      c_preempt cpu' \<noteq> c_preempt demo_cpu \<and>
      p_remaining (proc demo_cpu 1) < p_remaining (proc demo_cpu 0) \<and> c_curr cpu' = Some 1) \<and>
   (\<exists>cpu'. srt_newly_ready FromArrival [1] False tie_cpu = Inr cpu' \<and>
      c_curr tie_cpu = Some 0 \<and>
      (\<forall>p \<in> set [1]. p_remaining (proc tie_cpu 0) \<le> p_remaining (proc tie_cpu p)) \<and>
      p_remaining (proc tie_cpu 0) = p_remaining (proc tie_cpu 1) \<and>
      c_preempt cpu' = c_preempt tie_cpu \<and> c_curr cpu' = Some 0) \<and>
   (\<exists>cpu'' cpu2 cpu3. srt_tick demo_cpu = Inr cpu'' \<and>
      srt_newly_ready FromIO (srt_io_done (snd (srt_check demo_cpu))) (fst (srt_check demo_cpu))
            (snd (srt_check demo_cpu)) = Inr cpu2 \<and>
      srt_newly_ready FromArrival (srt_arrived cpu2) (fst (srt_check demo_cpu)) cpu2 = Inr cpu3 \<and>
      c_preempt cpu'' = c_preempt cpu3)"
proof -
  obtain d where d: "srt_newly_ready FromArrival [1] False demo_cpu = Inr d"
    and dp: "c_preempt d \<noteq> c_preempt demo_cpu"
    using demo_preempted by (simp add: demo_cpu_def)
  from srt_preempts_only_when_strictly_shorter[of FromArrival "[1]" False demo_cpu d] d dp
  have 1: "p_remaining (proc demo_cpu 1) < p_remaining (proc demo_cpu 0) \<and> c_curr d = Some 1"
    by (auto simp: demo_cpu_def)
  obtain e where e: "srt_newly_ready FromArrival [1] False tie_cpu = Inr e"
    using tie_not_preempted by simp
  have c: "c_curr tie_cpu = Some 0"
    and ge: "\<forall>p \<in> set [1]. p_remaining (proc tie_cpu 0) \<le> p_remaining (proc tie_cpu p)"
    and eq: "p_remaining (proc tie_cpu 0) = p_remaining (proc tie_cpu 1)"
    by (simp_all add: tie_cpu_def demo_cpu_def proc_def Process_init_def)
  from srt_preempts_only_when_strictly_shorter[of FromArrival "[1]" False tie_cpu e 0] e c ge
  have 2: "c_preempt e = c_preempt tie_cpu \<and> c_curr e = Some 0" by blast
  obtain t where t: "srt_tick demo_cpu = Inr t"
    using srt_tick_ok by blast
  from srt_preempts_only_when_strictly_shorter[of _ _ _ demo_cpu _ _ t] t
  obtain cpu2 cpu3 where 3:
    "srt_newly_ready FromIO (srt_io_done (snd (srt_check demo_cpu))) (fst (srt_check demo_cpu))
            (snd (srt_check demo_cpu)) = Inr cpu2"
    "srt_newly_ready FromArrival (srt_arrived cpu2) (fst (srt_check demo_cpu)) cpu2 = Inr cpu3"
    "c_preempt t = c_preempt cpu3" by blast
  show ?thesis
    using d dp 1 e c ge eq 2 t 3 by blast
qed

subsection \<open>C3: several processes ready in the same pass\<close>

lemma srt_key_simps [simp]:
  "srt_key (emit e c) = srt_key c"
  "srt_key (c\<lparr>c_ready := rd\<rparr>) = srt_key c"
  by (simp_all add: srt_key_def proc_def fun_eq_iff)












end
